theory Spec2Isabelle
  imports Complex_Main "HOL-Library.Monad_Syntax"
begin

section \<open>Data model (sudoku.h)\<close>

text \<open>
  The solver is embedded shallowly. A \<^verbatim>\<open>DLXNode*\<close> is an index into \<^verbatim>\<open>allNodes\<close>
  (the arena that owns every node), \<open>None\<close> is \<^verbatim>\<open>nullptr\<close>. Every computation that
  follows pointers or indexes a vector returns an \<open>option\<close>: \<open>None\<close> means that the C++
  program has no defined result there (a null or dangling dereference, an index outside a
  vector, a division by zero) or that a pointer-chasing loop does not terminate. The two
  exceptions the program throws are values of \<open>error\<close>.

  An \<^verbatim>\<open>int\<close> has 32 bits. Signed overflow is undefined behaviour, so a product or sum
  that leaves the range of \<^verbatim>\<open>int\<close> gives \<open>None\<close> (\<open>int_ok\<close>). The constructor
  computes \<^verbatim>\<open>size * size\<close>, \<^verbatim>\<open>size * cellCount\<close> and \<^verbatim>\<open>4 * cellCount\<close>, and
  \<^verbatim>\<open>buildDLXLinkedList\<close> computes \<^verbatim>\<open>1 + exactCoverCols + 4 * exactCoverRows\<close>; every
  other counter of the program stays below one of these values, so the members of a
  constructed solver and the loop counters bounded by them are natural numbers here.
  A record of type \<open>SudokuDLXSolver\<close> stands for an object of the class only if it comes
  from \<open>construct\<close>. Memory is assumed sufficient: \<^verbatim>\<open>std::bad_alloc\<close> is not modelled.
\<close>

datatype error = InvalidArgument | LengthError

type_synonym ptr = "nat option"

record DLXNode =
  left :: ptr
  right :: ptr
  up :: ptr
  down :: ptr
  column :: ptr
  columnSize :: int
  rowData :: "int list"

definition new_DLXNode :: DLXNode where
  "new_DLXNode = \<lparr>left = None, right = None, up = None, down = None,
     column = None, columnSize = 0, rowData = [0, 0, 0]\<rparr>"

type_synonym heap = "DLXNode list"

definition fld :: "(DLXNode \<Rightarrow> 'a) \<Rightarrow> heap \<Rightarrow> ptr \<Rightarrow> 'a option" where
  "fld f h p = (case p of None \<Rightarrow> None
     | Some a \<Rightarrow> if a < length h then Some (f (h ! a)) else None)"

definition assign :: "heap \<Rightarrow> ptr \<Rightarrow> (DLXNode \<Rightarrow> DLXNode) \<Rightarrow> heap option" where
  "assign h p g = (case p of None \<Rightarrow> None
     | Some a \<Rightarrow> if a < length h then Some (h[a := g (h ! a)]) else None)"

definition vget :: "'a list \<Rightarrow> nat \<Rightarrow> 'a option" where
  "vget xs i = (if i < length xs then Some (xs ! i) else None)"

definition vset :: "'a list \<Rightarrow> nat \<Rightarrow> 'a \<Rightarrow> 'a list option" where
  "vset xs i v = (if i < length xs then Some (xs[i := v]) else None)"

definition iget :: "'a list \<Rightarrow> int \<Rightarrow> 'a option" where
  "iget xs i = (if 0 \<le> i \<and> i < int (length xs) then Some (xs ! nat i) else None)"

record SudokuDLXSolver =
  gridSize :: nat
  blockSize :: nat
  cellCount :: nat
  exactCoverRows :: nat
  exactCoverCols :: nat
  rootHeader :: ptr
  solution :: "ptr list"
  fixedClues :: "ptr list"
  allNodes :: heap
  solutionCount :: int

definition INT_MAX :: int where
  "INT_MAX = 2147483647"

definition INT_MIN :: int where
  "INT_MIN = - 2147483648"

definition int_ok :: "int \<Rightarrow> int option" where
  "int_ok v = (if INT_MIN \<le> v \<and> v \<le> INT_MAX then Some v else None)"

text \<open>
  \<^verbatim>\<open>std::vector<T>(n, x)\<close> with an \<^verbatim>\<open>int\<close> count: the count is converted to
  \<^verbatim>\<open>size_type\<close>, so a negative one exceeds \<^verbatim>\<open>max_size()\<close> and the constructor throws
  \<^verbatim>\<open>std::length_error\<close>.
\<close>

definition vector_fill :: "int \<Rightarrow> 'a \<Rightarrow> error + 'a list" where
  "vector_fill n x = (if n < 0 then Inl LengthError else Inr (replicate (nat n) x))"

text \<open>
  The constructor. The members are initialised in the order of their declaration, the two
  vectors included, before the body tests the block size.
  \<^verbatim>\<open>static_cast<int>(std::sqrt(size))\<close> is the floor of the real square root (the IEEE
  square root of an \<^verbatim>\<open>int\<close> converted to \<^verbatim>\<open>double\<close> is correctly rounded, and a
  non-square below \<open>2\<^sup>3\<^sup>1\<close> is too far from the next integer to round up to it); for a
  negative size the conversion of NaN to \<^verbatim>\<open>int\<close> is undefined.
\<close>

definition construct :: "int \<Rightarrow> (error + SudokuDLXSolver) option" where
  "construct sz =
     (if sz < 0 then None
      else do {
        n \<leftarrow> int_ok sz;
        let b = \<lfloor>sqrt (real_of_int sz)\<rfloor>;
        cc \<leftarrow> int_ok (n * n);
        rows \<leftarrow> int_ok (n * cc);
        cols \<leftarrow> int_ok (4 * cc);
        (case vector_fill cc None of Inl e \<Rightarrow> Some (Inl e)
         | Inr sol \<Rightarrow>
        (case vector_fill cc None of Inl e \<Rightarrow> Some (Inl e)
         | Inr fc \<Rightarrow>
           if b * b \<noteq> n then Some (Inl InvalidArgument)
           else Some (Inr \<lparr>gridSize = nat n, blockSize = nat b, cellCount = nat cc,
             exactCoverRows = nat rows, exactCoverCols = nat cols, rootHeader = None,
             solution = sol, fixedClues = fc, allNodes = [], solutionCount = 0\<rparr>)))
      })"

section \<open>coverColumn / uncoverColumn\<close>

partial_function (option) cover_row :: "ptr \<Rightarrow> ptr \<Rightarrow> heap \<Rightarrow> heap option" where
  "cover_row node temp h =
     (if temp = node then Some h
      else do {
        d \<leftarrow> fld down h temp;
        u \<leftarrow> fld up h temp;
        h1 \<leftarrow> assign h d (\<lambda>n. n\<lparr>up := u\<rparr>);
        u1 \<leftarrow> fld up h1 temp;
        d1 \<leftarrow> fld down h1 temp;
        h2 \<leftarrow> assign h1 u1 (\<lambda>n. n\<lparr>down := d1\<rparr>);
        c \<leftarrow> fld column h2 temp;
        h3 \<leftarrow> assign h2 c (\<lambda>n. n\<lparr>columnSize := columnSize n - 1\<rparr>);
        t \<leftarrow> fld right h3 temp;
        cover_row node t h3
      })"

declare cover_row.simps [code]

partial_function (option) cover_rows :: "ptr \<Rightarrow> ptr \<Rightarrow> heap \<Rightarrow> heap option" where
  "cover_rows col node h =
     (if node = col then Some h
      else do {
        t \<leftarrow> fld right h node;
        h1 \<leftarrow> cover_row node t h;
        n \<leftarrow> fld down h1 node;
        cover_rows col n h1
      })"

declare cover_rows.simps [code]

definition coverColumn :: "heap \<Rightarrow> ptr \<Rightarrow> heap option" where
  "coverColumn h col = do {
     l \<leftarrow> fld left h col;
     r \<leftarrow> fld right h col;
     h1 \<leftarrow> assign h l (\<lambda>n. n\<lparr>right := r\<rparr>);
     r1 \<leftarrow> fld right h1 col;
     l1 \<leftarrow> fld left h1 col;
     h2 \<leftarrow> assign h1 r1 (\<lambda>n. n\<lparr>left := l1\<rparr>);
     n \<leftarrow> fld down h2 col;
     cover_rows col n h2
   }"

partial_function (option) uncover_row :: "ptr \<Rightarrow> ptr \<Rightarrow> heap \<Rightarrow> heap option" where
  "uncover_row node temp h =
     (if temp = node then Some h
      else do {
        c \<leftarrow> fld column h temp;
        h1 \<leftarrow> assign h c (\<lambda>n. n\<lparr>columnSize := columnSize n + 1\<rparr>);
        d \<leftarrow> fld down h1 temp;
        h2 \<leftarrow> assign h1 d (\<lambda>n. n\<lparr>up := temp\<rparr>);
        u \<leftarrow> fld up h2 temp;
        h3 \<leftarrow> assign h2 u (\<lambda>n. n\<lparr>down := temp\<rparr>);
        t \<leftarrow> fld left h3 temp;
        uncover_row node t h3
      })"

declare uncover_row.simps [code]

partial_function (option) uncover_rows :: "ptr \<Rightarrow> ptr \<Rightarrow> heap \<Rightarrow> heap option" where
  "uncover_rows col node h =
     (if node = col then Some h
      else do {
        t \<leftarrow> fld left h node;
        h1 \<leftarrow> uncover_row node t h;
        n \<leftarrow> fld up h1 node;
        uncover_rows col n h1
      })"

declare uncover_rows.simps [code]

definition uncoverColumn :: "heap \<Rightarrow> ptr \<Rightarrow> heap option" where
  "uncoverColumn h col = do {
     n \<leftarrow> fld up h col;
     h1 \<leftarrow> uncover_rows col n h;
     l \<leftarrow> fld left h1 col;
     h2 \<leftarrow> assign h1 l (\<lambda>n. n\<lparr>right := col\<rparr>);
     r \<leftarrow> fld right h2 col;
     assign h2 r (\<lambda>n. n\<lparr>left := col\<rparr>)
   }"

section \<open>buildExactCoverMatrix\<close>

type_synonym matrix = "bool list list"

definition mget :: "matrix \<Rightarrow> nat \<Rightarrow> nat \<Rightarrow> bool option" where
  "mget M i j = (if i < length M \<and> j < length (M ! i) then Some (M ! i ! j) else None)"

definition mset_true :: "matrix \<Rightarrow> nat \<Rightarrow> nat \<Rightarrow> matrix option" where
  "mset_true M i j =
     (if i < length M \<and> j < length (M ! i) then Some (M[i := (M ! i)[j := True]]) else None)"

definition cmod :: "nat \<Rightarrow> nat \<Rightarrow> nat option" where
  "cmod a b = (if b = 0 then None else Some (a mod b))"

function constraint1 :: "SudokuDLXSolver \<Rightarrow> nat \<Rightarrow> nat \<Rightarrow> nat \<Rightarrow> matrix \<Rightarrow> matrix option" where
  "constraint1 s i j counter M =
     (if i < exactCoverRows s then
        (case mset_true M i j of None \<Rightarrow> None
         | Some M1 \<Rightarrow>
            if counter + 1 \<ge> gridSize s then constraint1 s (i + 1) (j + 1) 0 M1
            else constraint1 s (i + 1) j (counter + 1) M1)
      else Some M)"
  by pat_completeness auto

termination
  by (relation "measure (\<lambda>(s, i, j, counter, M). exactCoverRows s - i)") auto

partial_function (option) constraint2_rows ::
  "SudokuDLXSolver \<Rightarrow> nat \<Rightarrow> nat \<Rightarrow> nat \<Rightarrow> matrix \<Rightarrow> matrix option" where
  "constraint2_rows s i counter j M =
     (if i < counter * cellCount s then
        (case mset_true M i j of None \<Rightarrow> None
         | Some M1 \<Rightarrow> constraint2_rows s (i + gridSize s) counter j M1)
      else Some M)"

declare constraint2_rows.simps [code]

function constraint2 :: "SudokuDLXSolver \<Rightarrow> nat \<Rightarrow> nat \<Rightarrow> nat \<Rightarrow> matrix \<Rightarrow> matrix option" where
  "constraint2 s j x counter M =
     (if j < 2 * cellCount s then
        (case constraint2_rows s x counter j M of None \<Rightarrow> None
         | Some M1 \<Rightarrow>
            (case cmod (j + 1) (gridSize s) of None \<Rightarrow> None
             | Some m \<Rightarrow>
                if m = 0 then constraint2 s (j + 1) (counter * cellCount s) (counter + 1) M1
                else constraint2 s (j + 1) (x + 1) counter M1))
      else Some M)"
  by pat_completeness auto

termination
  by (relation "measure (\<lambda>(s, j, x, counter, M). 2 * cellCount s - j)") auto

function constraint3 :: "SudokuDLXSolver \<Rightarrow> nat \<Rightarrow> nat \<Rightarrow> matrix \<Rightarrow> matrix option" where
  "constraint3 s i j M =
     (if i < exactCoverRows s then
        (case mset_true M i j of None \<Rightarrow> None
         | Some M1 \<Rightarrow>
            if j + 1 \<ge> 3 * cellCount s then constraint3 s (i + 1) (2 * cellCount s) M1
            else constraint3 s (i + 1) (j + 1) M1)
      else Some M)"
  by pat_completeness auto

termination
  by (relation "measure (\<lambda>(s, i, j, M). exactCoverRows s - i)") auto

function constraint4_k :: "SudokuDLXSolver \<Rightarrow> nat \<Rightarrow> nat \<Rightarrow> nat \<Rightarrow> nat \<Rightarrow> matrix \<Rightarrow> matrix option" where
  "constraint4_k s x j l k M =
     (if k < blockSize s then
        (case mset_true M (x + l * gridSize s + k * cellCount s) j of None \<Rightarrow> None
         | Some M1 \<Rightarrow> constraint4_k s x j l (k + 1) M1)
      else Some M)"
  by pat_completeness auto

termination
  by (relation "measure (\<lambda>(s, x, j, l, k, M). blockSize s - k)") auto

function constraint4_l :: "SudokuDLXSolver \<Rightarrow> nat \<Rightarrow> nat \<Rightarrow> nat \<Rightarrow> matrix \<Rightarrow> matrix option" where
  "constraint4_l s x j l M =
     (if l < blockSize s then
        (case constraint4_k s x j l 0 M of None \<Rightarrow> None
         | Some M1 \<Rightarrow> constraint4_l s x j (l + 1) M1)
      else Some M)"
  by pat_completeness auto

termination
  by (relation "measure (\<lambda>(s, x, j, l, M). blockSize s - l)") auto

function constraint4 :: "SudokuDLXSolver \<Rightarrow> nat \<Rightarrow> nat \<Rightarrow> matrix \<Rightarrow> matrix option" where
  "constraint4 s j x M =
     (if j < exactCoverCols s then
        (case constraint4_l s x j 0 M of None \<Rightarrow> None
         | Some M1 \<Rightarrow>
            let temp = j + 1 - 3 * cellCount s in
            (case cmod temp (blockSize s * gridSize s) of None \<Rightarrow> None
             | Some m1 \<Rightarrow>
                if m1 = 0 then
                  constraint4 s (j + 1)
                    (x + ((blockSize s - 1) * cellCount s + (blockSize s - 1) * gridSize s + 1)) M1
                else
                  (case cmod temp (gridSize s) of None \<Rightarrow> None
                   | Some m2 \<Rightarrow>
                      if m2 = 0 then constraint4 s (j + 1) (x + (gridSize s * (blockSize s - 1) + 1)) M1
                      else constraint4 s (j + 1) (x + 1) M1)))
      else Some M)"
  by pat_completeness auto

termination
  by (relation "measure (\<lambda>(s, j, x, M). exactCoverCols s - j)") auto

definition buildExactCoverMatrix :: "SudokuDLXSolver \<Rightarrow> matrix \<Rightarrow> matrix option" where
  "buildExactCoverMatrix s M =
     (case constraint1 s 0 0 0 M of None \<Rightarrow> None
      | Some M1 \<Rightarrow>
        (case constraint2 s (cellCount s) 0 1 M1 of None \<Rightarrow> None
         | Some M2 \<Rightarrow>
           (case constraint3 s 0 (2 * cellCount s) M2 of None \<Rightarrow> None
            | Some M3 \<Rightarrow> constraint4 s (3 * cellCount s) 0 M3)))"

section \<open>buildDLXLinkedList\<close>

definition alloc :: "heap \<Rightarrow> heap \<times> ptr" where
  "alloc h = (h @ [new_DLXNode], Some (length h))"

function columnNodes :: "SudokuDLXSolver \<Rightarrow> nat \<Rightarrow> ptr \<Rightarrow> ptr \<Rightarrow> heap \<Rightarrow> heap option" where
  "columnNodes s i header temp h =
     (if i < exactCoverCols s then
        (let (h0, newNode) = alloc h in
         case (do {
           h1 \<leftarrow> assign h0 newNode (\<lambda>n. n\<lparr>columnSize := 0\<rparr>);
           h2 \<leftarrow> assign h1 newNode (\<lambda>n. n\<lparr>up := newNode\<rparr>);
           h3 \<leftarrow> assign h2 newNode (\<lambda>n. n\<lparr>down := newNode\<rparr>);
           h4 \<leftarrow> assign h3 newNode (\<lambda>n. n\<lparr>column := newNode\<rparr>);
           h5 \<leftarrow> assign h4 newNode (\<lambda>n. n\<lparr>right := header\<rparr>);
           h6 \<leftarrow> assign h5 newNode (\<lambda>n. n\<lparr>left := temp\<rparr>);
           assign h6 temp (\<lambda>n. n\<lparr>right := newNode\<rparr>)
         }) of None \<Rightarrow> None
         | Some h7 \<Rightarrow> columnNodes s (i + 1) header newNode h7)
      else Some h)"
  by pat_completeness auto

termination
  by (relation "measure (\<lambda>(s, i, header, temp, h). exactCoverCols s - i)") auto

definition next_id :: "SudokuDLXSolver \<Rightarrow> nat \<Rightarrow> int list \<Rightarrow> int list option" where
  "next_id s i ident =
     (if i \<noteq> 0 \<and> cellCount s = 0 then None
      else if i \<noteq> 0 \<and> i mod cellCount s = 0 then
        Some [ident ! 0 - (int (gridSize s) - 1), ident ! 1 + 1, ident ! 2 - (int (gridSize s) - 1)]
      else if i \<noteq> 0 \<and> gridSize s = 0 then None
      else if i \<noteq> 0 \<and> i mod gridSize s = 0 then
        Some [ident ! 0 - (int (gridSize s) - 1), ident ! 1, ident ! 2 + 1]
      else Some [ident ! 0 + 1, ident ! 1, ident ! 2])"

definition addNode :: "int list \<Rightarrow> ptr \<Rightarrow> ptr \<Rightarrow> heap \<Rightarrow> (heap \<times> ptr) option" where
  "addNode ident top0 prev h =
     (let (h0, newNode) = alloc h in do {
        h1 \<leftarrow> assign h0 newNode (\<lambda>n. n\<lparr>rowData := (rowData n)[0 := ident ! 0]\<rparr>);
        h2 \<leftarrow> assign h1 newNode (\<lambda>n. n\<lparr>rowData := (rowData n)[1 := ident ! 1]\<rparr>);
        h3 \<leftarrow> assign h2 newNode (\<lambda>n. n\<lparr>rowData := (rowData n)[2 := ident ! 2]\<rparr>);
        (h4, prev1) \<leftarrow>
          (if prev = None then do {
             h' \<leftarrow> assign h3 newNode (\<lambda>n. n\<lparr>right := newNode\<rparr>);
             Some (h', newNode) }
           else Some (h3, prev));
        h5 \<leftarrow> assign h4 newNode (\<lambda>n. n\<lparr>left := prev1\<rparr>);
        pr \<leftarrow> fld right h5 prev1;
        h6 \<leftarrow> assign h5 newNode (\<lambda>n. n\<lparr>right := pr\<rparr>);
        nr \<leftarrow> fld right h6 newNode;
        h7 \<leftarrow> assign h6 nr (\<lambda>n. n\<lparr>left := newNode\<rparr>);
        h8 \<leftarrow> assign h7 prev1 (\<lambda>n. n\<lparr>right := newNode\<rparr>);
        h9 \<leftarrow> assign h8 newNode (\<lambda>n. n\<lparr>column := top0\<rparr>);
        h10 \<leftarrow> assign h9 newNode (\<lambda>n. n\<lparr>down := top0\<rparr>);
        tu \<leftarrow> fld up h10 top0;
        h11 \<leftarrow> assign h10 newNode (\<lambda>n. n\<lparr>up := tu\<rparr>);
        tu1 \<leftarrow> fld up h11 top0;
        h12 \<leftarrow> assign h11 tu1 (\<lambda>n. n\<lparr>down := newNode\<rparr>);
        h13 \<leftarrow> assign h12 top0 (\<lambda>n. n\<lparr>columnSize := columnSize n + 1\<rparr>);
        h14 \<leftarrow> assign h13 top0 (\<lambda>n. n\<lparr>up := newNode\<rparr>);
        td \<leftarrow> fld down h14 top0;
        h15 \<leftarrow> (if td = top0 then assign h14 top0 (\<lambda>n. n\<lparr>down := newNode\<rparr>) else Some h14);
        Some (h15, newNode)
      })"

function rowNodes_cols ::
  "SudokuDLXSolver \<Rightarrow> matrix \<Rightarrow> int list \<Rightarrow> nat \<Rightarrow> nat \<Rightarrow> ptr \<Rightarrow> ptr \<Rightarrow> heap \<Rightarrow> heap option" where
  "rowNodes_cols s M ident i j top0 prev h =
     (if j < exactCoverCols s then
        (case (do {
           b \<leftarrow> mget M i j;
           (h1, prev1) \<leftarrow> (if b then addNode ident top0 prev h else Some (h, prev));
           top1 \<leftarrow> fld right h1 top0;
           Some (h1, prev1, top1)
         }) of None \<Rightarrow> None
         | Some (h1, prev1, top1) \<Rightarrow> rowNodes_cols s M ident i (j + 1) top1 prev1 h1)
      else Some h)"
  by pat_completeness auto

termination
  by (relation "measure (\<lambda>(s, M, ident, i, j, top0, prev, h). exactCoverCols s - j)") auto

function rowNodes :: "SudokuDLXSolver \<Rightarrow> matrix \<Rightarrow> ptr \<Rightarrow> nat \<Rightarrow> int list \<Rightarrow> heap \<Rightarrow> heap option" where
  "rowNodes s M header i ident h =
     (if i < exactCoverRows s then
        (case (do {
           top0 \<leftarrow> fld right h header;
           ident1 \<leftarrow> next_id s i ident;
           h1 \<leftarrow> rowNodes_cols s M ident1 i 0 top0 None h;
           Some (ident1, h1)
         }) of None \<Rightarrow> None
         | Some (ident1, h1) \<Rightarrow> rowNodes s M header (i + 1) ident1 h1)
      else Some h)"
  by pat_completeness auto

termination
  by (relation "measure (\<lambda>(s, M, header, i, ident, h). exactCoverRows s - i)") auto

text \<open>
  \<^verbatim>\<open>allNodes.reserve(1 + exactCoverCols + 4 * exactCoverRows)\<close> evaluates an \<^verbatim>\<open>int\<close>
  expression whose terms are non-negative: it overflows exactly when its value does not fit.
\<close>

definition buildDLXLinkedList :: "SudokuDLXSolver \<Rightarrow> matrix \<Rightarrow> SudokuDLXSolver option" where
  "buildDLXLinkedList s M = do {
     _ \<leftarrow> int_ok (1 + int (exactCoverCols s) + 4 * int (exactCoverRows s));
     (let (h0, header) = alloc (allNodes s) in do {
        h1 \<leftarrow> assign h0 header (\<lambda>n. n\<lparr>left := header\<rparr>);
        h2 \<leftarrow> assign h1 header (\<lambda>n. n\<lparr>right := header\<rparr>);
        h3 \<leftarrow> assign h2 header (\<lambda>n. n\<lparr>down := header\<rparr>);
        h4 \<leftarrow> assign h3 header (\<lambda>n. n\<lparr>up := header\<rparr>);
        h5 \<leftarrow> assign h4 header (\<lambda>n. n\<lparr>columnSize := - 1\<rparr>);
        h6 \<leftarrow> assign h5 header (\<lambda>n. n\<lparr>column := header\<rparr>);
        h7 \<leftarrow> columnNodes s 0 header header h6;
        h8 \<leftarrow> rowNodes s M header 0 [0, 1, 1] h7;
        Some (s\<lparr>allNodes := h8, rootHeader := header\<rparr>)
      })
   }"

section \<open>findNodeForClue / applyInitialConstraints\<close>

partial_function (option) findNode_down ::
  "heap \<Rightarrow> int \<Rightarrow> int \<Rightarrow> int \<Rightarrow> ptr \<Rightarrow> ptr \<Rightarrow> ptr option" where
  "findNode_down h val row col colHeader node =
     (if node = colHeader then Some None
      else do {
        rd \<leftarrow> fld rowData h node;
        if rd ! 0 = val \<and> rd ! 1 - 1 = row \<and> rd ! 2 - 1 = col then Some node
        else do {
          n \<leftarrow> fld down h node;
          findNode_down h val row col colHeader n
        }
      })"

declare findNode_down.simps [code]

partial_function (option) findNode_cols ::
  "heap \<Rightarrow> ptr \<Rightarrow> int \<Rightarrow> int \<Rightarrow> int \<Rightarrow> ptr \<Rightarrow> ptr option" where
  "findNode_cols h rootp val row col colHeader =
     (if colHeader = rootp then Some None
      else do {
        n \<leftarrow> fld down h colHeader;
        r \<leftarrow> findNode_down h val row col colHeader n;
        if r \<noteq> None then Some r
        else do {
          c \<leftarrow> fld right h colHeader;
          findNode_cols h rootp val row col c
        }
      })"

declare findNode_cols.simps [code]

definition findNodeForClue :: "SudokuDLXSolver \<Rightarrow> int \<Rightarrow> int \<Rightarrow> int \<Rightarrow> ptr option" where
  "findNodeForClue s val row col = do {
     c \<leftarrow> fld right (allNodes s) (rootHeader s);
     findNode_cols (allNodes s) (rootHeader s) val row col c
   }"

partial_function (option) cover_others :: "ptr \<Rightarrow> ptr \<Rightarrow> heap \<Rightarrow> heap option" where
  "cover_others temp node h =
     (if node = temp then Some h
      else do {
        c \<leftarrow> fld column h node;
        h1 \<leftarrow> coverColumn h c;
        n \<leftarrow> fld right h1 node;
        cover_others temp n h1
      })"

declare cover_others.simps [code]

definition applyClue :: "SudokuDLXSolver \<Rightarrow> nat \<Rightarrow> ptr \<Rightarrow> (SudokuDLXSolver \<times> nat) option" where
  "applyClue s index temp = do {
     col \<leftarrow> fld column (allNodes s) temp;
     h1 \<leftarrow> coverColumn (allNodes s) col;
     fc \<leftarrow> vset (fixedClues s) index temp;
     node \<leftarrow> fld right h1 temp;
     h2 \<leftarrow> cover_others temp node h1;
     Some (s\<lparr>allNodes := h2, fixedClues := fc\<rparr>, index + 1)
   }"

function applyInitial_cols ::
  "nat \<Rightarrow> int list list \<Rightarrow> nat \<Rightarrow> nat \<Rightarrow> SudokuDLXSolver \<times> nat \<Rightarrow> (SudokuDLXSolver \<times> nat) option" where
  "applyInitial_cols n puzzle i j st =
     (if j < n then
        (case (do {
           row \<leftarrow> vget puzzle i;
           v \<leftarrow> vget row j;
           if v > 0 then do {
             temp \<leftarrow> findNodeForClue (fst st) v (int i) (int j);
             if temp \<noteq> None then applyClue (fst st) (snd st) temp else Some st
           } else Some st
         }) of None \<Rightarrow> None
         | Some st1 \<Rightarrow> applyInitial_cols n puzzle i (j + 1) st1)
      else Some st)"
  by pat_completeness auto

termination
  by (relation "measure (\<lambda>(n, puzzle, i, j, st). n - j)") auto

function applyInitial_rows ::
  "nat \<Rightarrow> int list list \<Rightarrow> nat \<Rightarrow> SudokuDLXSolver \<times> nat \<Rightarrow> (SudokuDLXSolver \<times> nat) option" where
  "applyInitial_rows n puzzle i st =
     (if i < n then
        (case applyInitial_cols n puzzle i 0 st of None \<Rightarrow> None
         | Some st1 \<Rightarrow> applyInitial_rows n puzzle (i + 1) st1)
      else Some st)"
  by pat_completeness auto

termination
  by (relation "measure (\<lambda>(n, puzzle, i, st). n - i)") auto

definition applyInitialConstraints :: "SudokuDLXSolver \<Rightarrow> int list list \<Rightarrow> SudokuDLXSolver option" where
  "applyInitialConstraints s puzzle = map_option fst (applyInitial_rows (gridSize s) puzzle 0 (s, 0))"

section \<open>mapSolutionToGrid / searchDLX / solve\<close>

type_synonym grid = "int list list"

definition grid_set :: "grid \<Rightarrow> int \<Rightarrow> int \<Rightarrow> int \<Rightarrow> grid option" where
  "grid_set g r c v = do {
     row \<leftarrow> iget g r;
     _ \<leftarrow> iget row c;
     Some (g[nat r := row[nat c := v]])
   }"

function mapNodes :: "heap \<Rightarrow> ptr list \<Rightarrow> nat \<Rightarrow> grid \<Rightarrow> grid option" where
  "mapNodes h nodes i sudoku =
     (if i < length nodes then
        (if nodes ! i = None then Some sudoku
         else
           (case (do {
              rd \<leftarrow> fld rowData h (nodes ! i);
              grid_set sudoku (rd ! 1 - 1) (rd ! 2 - 1) (rd ! 0)
            }) of None \<Rightarrow> None
            | Some sudoku1 \<Rightarrow> mapNodes h nodes (i + 1) sudoku1))
      else None)"
  by pat_completeness auto

termination
  by (relation "measure (\<lambda>(h, nodes, i, sudoku). length nodes - i)") auto

definition mapSolutionToGrid :: "SudokuDLXSolver \<Rightarrow> grid \<Rightarrow> grid option" where
  "mapSolutionToGrid s sudoku = do {
     g1 \<leftarrow> mapNodes (allNodes s) (solution s) 0 sudoku;
     mapNodes (allNodes s) (fixedClues s) 0 g1
   }"

partial_function (option) selectColumn :: "heap \<Rightarrow> ptr \<Rightarrow> ptr \<Rightarrow> ptr \<Rightarrow> ptr option" where
  "selectColumn h rootp col temp =
     (if temp = rootp then Some col
      else do {
        a \<leftarrow> fld columnSize h temp;
        b \<leftarrow> fld columnSize h col;
        t \<leftarrow> fld right h temp;
        selectColumn h rootp (if a < b then temp else col) t
      })"

declare selectColumn.simps [code]

partial_function (option) uncover_others :: "ptr \<Rightarrow> ptr \<Rightarrow> heap \<Rightarrow> heap option" where
  "uncover_others temp node h =
     (if node = temp then Some h
      else do {
        c \<leftarrow> fld column h node;
        h1 \<leftarrow> uncoverColumn h c;
        n \<leftarrow> fld left h1 node;
        uncover_others temp n h1
      })"

declare uncover_others.simps [code]

datatype search_pc = Entry | RowLoop ptr ptr

partial_function (option) searchDLX ::
  "search_pc \<Rightarrow> nat \<Rightarrow> int \<Rightarrow> SudokuDLXSolver \<times> grid list \<Rightarrow> (SudokuDLXSolver \<times> grid list) option" where
  "searchDLX pc k searchLimit st =
     (case pc of
        Entry \<Rightarrow>
          (if solutionCount (fst st) \<ge> searchLimit then Some st
           else do {
             r \<leftarrow> fld right (allNodes (fst st)) (rootHeader (fst st));
             if r = rootHeader (fst st) then do {
               sudokuGrid \<leftarrow> mapSolutionToGrid (fst st)
                  (replicate (gridSize (fst st)) (replicate (gridSize (fst st)) 0));
               Some ((fst st)\<lparr>solutionCount := solutionCount (fst st) + 1\<rparr>, snd st @ [sudokuGrid])
             } else do {
               t \<leftarrow> fld right (allNodes (fst st)) r;
               col \<leftarrow> selectColumn (allNodes (fst st)) (rootHeader (fst st)) r t;
               h \<leftarrow> coverColumn (allNodes (fst st)) col;
               temp \<leftarrow> fld down h col;
               searchDLX (RowLoop temp col) k searchLimit ((fst st)\<lparr>allNodes := h\<rparr>, snd st)
             }
           })
      | RowLoop temp col \<Rightarrow>
          (if temp = col then do {
             h \<leftarrow> uncoverColumn (allNodes (fst st)) col;
             Some ((fst st)\<lparr>allNodes := h\<rparr>, snd st)
           } else do {
             sol \<leftarrow> vset (solution (fst st)) k temp;
             node \<leftarrow> fld right (allNodes (fst st)) temp;
             h1 \<leftarrow> cover_others temp node (allNodes (fst st));
             st1 \<leftarrow> searchDLX Entry (k + 1) searchLimit
                     ((fst st)\<lparr>solution := sol, allNodes := h1\<rparr>, snd st);
             temp1 \<leftarrow> vget (solution (fst st1)) k;
             sol1 \<leftarrow> vset (solution (fst st1)) k None;
             col1 \<leftarrow> fld column (allNodes (fst st1)) temp1;
             node1 \<leftarrow> fld left (allNodes (fst st1)) temp1;
             h2 \<leftarrow> uncover_others temp1 node1 (allNodes (fst st1));
             temp2 \<leftarrow> fld down h2 temp1;
             searchDLX (RowLoop temp2 col1) k searchLimit
               ((fst st1)\<lparr>solution := sol1, allNodes := h2\<rparr>, snd st1)
           }))"

declare searchDLX.simps [code]

definition solve :: "SudokuDLXSolver \<Rightarrow> grid \<Rightarrow> int \<Rightarrow> (error + grid list) option" where
  "solve s puzzle searchLimit =
     (if length puzzle \<noteq> gridSize s \<or> (length puzzle > 0 \<and> length (puzzle ! 0) \<noteq> gridSize s)
      then Some (Inl InvalidArgument)
      else if searchLimit < 0 then Some (Inl LengthError)
      else
        let s0 = s\<lparr>solutionCount := 0, allNodes := [],
                   solution := replicate (length (solution s)) None,
                   fixedClues := replicate (length (fixedClues s)) None\<rparr> in
        do {
          M \<leftarrow> buildExactCoverMatrix s0
                 (replicate (exactCoverRows s0) (replicate (exactCoverCols s0) False));
          s1 \<leftarrow> buildDLXLinkedList s0 M;
          s2 \<leftarrow> applyInitialConstraints s1 puzzle;
          st \<leftarrow> searchDLX Entry 0 searchLimit (s2, []);
          Some (Inr (snd st))
        })"

definition solver4 :: SudokuDLXSolver where
  "solver4 = \<lparr>gridSize = 4, blockSize = 2, cellCount = 16,
     exactCoverRows = 64, exactCoverCols = 64, rootHeader = None,
     solution = replicate 16 None, fixedClues = replicate 16 None,
     allNodes = [], solutionCount = 0\<rparr>"

definition ragged4 :: grid where
  "ragged4 = [[0, 0, 0, 0], [0, 0, 0], [0, 0, 0, 0], [0, 0, 0, 0]]"

declare constraint1.simps [simp del] constraint2.simps [simp del] constraint3.simps [simp del]
  constraint4_k.simps [simp del] constraint4_l.simps [simp del] constraint4.simps [simp del]

definition dims :: "matrix \<Rightarrow> nat \<Rightarrow> nat \<Rightarrow> bool" where
  "dims M R C \<longleftrightarrow> length M = R \<and> (\<forall>row\<in>set M. length row = C)"

definition adds :: "nat \<Rightarrow> nat \<Rightarrow> matrix \<Rightarrow> matrix \<Rightarrow> (nat \<Rightarrow> nat \<Rightarrow> bool) \<Rightarrow> bool" where
  "adds R C M M' P \<longleftrightarrow> dims M R C \<and> dims M' R C \<and> (\<forall>a<R. \<forall>b<C. M' ! a ! b = (M ! a ! b \<or> P a b))"

definition cellColumn :: "nat \<Rightarrow> nat \<Rightarrow> nat" where
  "cellColumn N i = i div N"

definition rowColumn :: "nat \<Rightarrow> nat \<Rightarrow> nat" where
  "rowColumn N i = N * N + (i div (N * N)) * N + i mod N"

definition colColumn :: "nat \<Rightarrow> nat \<Rightarrow> nat" where
  "colColumn N i = 2 * (N * N) + i mod (N * N)"

definition blockIndex :: "nat \<Rightarrow> nat \<Rightarrow> nat \<Rightarrow> nat" where
  "blockIndex B r c = (r div B) * B + c div B"

definition blockColumn :: "nat \<Rightarrow> nat \<Rightarrow> nat \<Rightarrow> nat" where
  "blockColumn N B i = 3 * (N * N) + blockIndex B (i div (N * N)) (i div N mod N) * N + i mod N"

definition valid_solver :: "SudokuDLXSolver \<Rightarrow> bool" where
  "valid_solver s \<longleftrightarrow> gridSize s = blockSize s * blockSize s \<and> cellCount s = gridSize s * gridSize s
     \<and> exactCoverRows s = gridSize s * cellCount s \<and> exactCoverCols s = 4 * cellCount s"

text \<open>
  The invariants of the two construction loops. \<open>hdrs_ok C h\<close>: node 0 is the root, nodes
  \<open>1..C\<close> are the column headers, linked to the right in this order and back to the root;
  every header points to the left at its predecessor, and the root's own \<open>left\<close> is the
  root itself, as the source never assigns it after the root's initialisation. \<open>rows_ok\<close>:
  the links of the nodes after the headers stay inside the arena.
\<close>

declare columnNodes.simps [simp del] rowNodes_cols.simps [simp del] rowNodes.simps [simp del]

definition hdrs_ok :: "nat \<Rightarrow> heap \<Rightarrow> bool" where
  "hdrs_ok C h \<longleftrightarrow> C < length h
     \<and> left (h ! 0) = Some 0 \<and> right (h ! 0) = Some (if C = 0 then 0 else 1)
     \<and> up (h ! 0) = Some 0 \<and> down (h ! 0) = Some 0 \<and> column (h ! 0) = Some 0
     \<and> columnSize (h ! 0) = - 1 \<and>
     (\<forall>k. 1 \<le> k \<and> k \<le> C \<longrightarrow>
        left (h ! k) = Some (k - 1) \<and> right (h ! k) = Some (if k = C then 0 else k + 1)
        \<and> column (h ! k) = Some k
        \<and> (\<exists>u. up (h ! k) = Some u \<and> (u = k \<or> (C < u \<and> u < length h \<and> column (h ! u) = Some k)))
        \<and> (\<exists>d. down (h ! k) = Some d \<and> (d = k \<or> (C < d \<and> d < length h \<and> column (h ! d) = Some k))))"

definition rows_ok :: "nat \<Rightarrow> heap \<Rightarrow> bool" where
  "rows_ok C h \<longleftrightarrow> (\<forall>n. C < n \<and> n < length h \<longrightarrow>
     (\<exists>l r u d c. left (h ! n) = Some l \<and> C < l \<and> l < length h
        \<and> right (h ! n) = Some r \<and> C < r \<and> r < length h
        \<and> up (h ! n) = Some u \<and> 1 \<le> u \<and> u < length h
        \<and> down (h ! n) = Some d \<and> 1 \<le> d \<and> d < length h
        \<and> column (h ! n) = Some c \<and> 1 \<le> c \<and> c \<le> C))"

definition node_added ::
  "heap \<Rightarrow> heap \<Rightarrow> nat \<Rightarrow> nat \<Rightarrow> nat \<Rightarrow> nat \<Rightarrow> nat \<Rightarrow> int list \<Rightarrow> bool" where
  "node_added h h' p r t u d ident \<longleftrightarrow>
       map left h' = (map left h @ [Some p])[r := Some (length h)]
     \<and> map right h' = (map right h @ [Some r])[p := Some (length h)]
     \<and> map up h' = (map up h @ [Some u])[t := Some (length h)]
     \<and> map down h' = (map down h @ [Some t])[u := Some (length h),
            t := (if u = t \<or> d = t then Some (length h) else Some d)]
     \<and> map column h' = map column h @ [Some t]
     \<and> map rowData h' = map rowData h @ [[ident ! 0, ident ! 1, ident ! 2]]
     \<and> map columnSize h' = (map columnSize h @ [0])[t := columnSize (h ! t) + 1]"

definition prev_ok :: "nat \<Rightarrow> nat \<Rightarrow> heap \<Rightarrow> ptr \<Rightarrow> bool" where
  "prev_ok C j h prev \<longleftrightarrow> (case prev of None \<Rightarrow> True
     | Some p \<Rightarrow> C < p \<and> p < length h \<and> (\<exists>cp. column (h ! p) = Some cp \<and> cp \<le> j)
         \<and> (\<exists>r. right (h ! p) = Some r \<and> C < r \<and> r < length h
               \<and> (\<exists>cr. column (h ! r) = Some cr \<and> cr \<le> j)))"

definition meta :: "nat \<Rightarrow> nat \<Rightarrow> int list" where
  "meta N i = [int (i mod N) + 1, int (i div (N * N)) + 1, int (i div N mod N) + 1]"

definition solver1 :: SudokuDLXSolver where
  "solver1 = \<lparr>gridSize = 1, blockSize = 1, cellCount = 1,
     exactCoverRows = 1, exactCoverCols = 4, rootHeader = None,
     solution = replicate 1 None, fixedClues = replicate 1 None,
     allNodes = [], solutionCount = 0\<rparr>"

declare mapNodes.simps [simp del]

declare applyInitial_cols.simps [simp del] applyInitial_rows.simps [simp del]

section \<open>Concrete solvers and inputs used in the examples\<close>

section \<open>Construction\<close>

lemma floor_sqrt_square: "\<lfloor>sqrt (real_of_int (k * k))\<rfloor> = \<bar>k\<bar>"
proof -
  have "sqrt (real_of_int (k * k)) = real_of_int \<bar>k\<bar>"
    by simp
  then show ?thesis by (simp only: floor_of_int)
qed

lemma floor_sqrt_nonneg: "0 \<le> \<lfloor>sqrt (real_of_int s)\<rfloor>" if "0 \<le> s"
  using that by simp

lemma construct_square_iff:
  assumes "0 \<le> s"
  shows "\<lfloor>sqrt (real_of_int s)\<rfloor> * \<lfloor>sqrt (real_of_int s)\<rfloor> = s \<longleftrightarrow> (\<exists>k. s = k * k)"
proof
  assume "\<lfloor>sqrt (real_of_int s)\<rfloor> * \<lfloor>sqrt (real_of_int s)\<rfloor> = s"
  then have "s = \<lfloor>sqrt (real_of_int s)\<rfloor> * \<lfloor>sqrt (real_of_int s)\<rfloor>" by (rule sym)
  then show "\<exists>k. s = k * k" by (rule exI)
next
  assume "\<exists>k. s = k * k"
  then obtain k where k: "s = k * k" by blast
  have "\<lfloor>sqrt (real_of_int s)\<rfloor> = \<bar>k\<bar>" unfolding k by (rule floor_sqrt_square)
  then show "\<lfloor>sqrt (real_of_int s)\<rfloor> * \<lfloor>sqrt (real_of_int s)\<rfloor> = s"
    using k by (simp add: abs_mult_self_eq)
qed

lemma cube_fits:
  fixes s :: int
  assumes "0 \<le> s"
  shows "s * (s * s) \<le> 2147483647 \<longleftrightarrow> s \<le> 1290"
proof
  assume c: "s * (s * s) \<le> 2147483647"
  show "s \<le> 1290"
  proof (rule ccontr)
    assume "\<not> s \<le> 1290"
    then have g: "1291 \<le> s" by simp
    then have "1291 * 1291 \<le> s * s" by (intro mult_mono) simp_all
    then have "1291 * (1291 * 1291) \<le> s * (s * s)" using g by (intro mult_mono) simp_all
    then show False using c by simp
  qed
next
  assume l: "s \<le> 1290"
  then have "s * s \<le> 1290 * 1290" using assms by (intro mult_mono) simp_all
  then have "s * (s * s) \<le> 1290 * (1290 * 1290)" using l assms by (intro mult_mono) simp_all
  then show "s * (s * s) \<le> 2147483647" by simp
qed

lemma square_fits:
  fixes s :: int
  assumes "0 \<le> s" "s \<le> 1290"
  shows "s * s \<le> 1664100"
proof -
  have "s * s \<le> 1290 * 1290" using assms by (intro mult_mono) simp_all
  then show ?thesis by simp
qed

lemma cube_overflow:
  fixes s :: int
  assumes "1290 < s" "s * s \<le> 2147483647"
  shows "\<not> s * (s * s) \<le> 2147483647"
  using cube_fits[of s] assms by simp

lemma construct_eq:
  "construct sz =
     (if sz < 0 \<or> 1290 < sz then None
      else if \<lfloor>sqrt (real_of_int sz)\<rfloor> * \<lfloor>sqrt (real_of_int sz)\<rfloor> \<noteq> sz then Some (Inl InvalidArgument)
      else Some (Inr \<lparr>gridSize = nat sz, blockSize = nat \<lfloor>sqrt (real_of_int sz)\<rfloor>,
             cellCount = nat (sz * sz), exactCoverRows = nat (sz * (sz * sz)),
             exactCoverCols = nat (4 * (sz * sz)), rootHeader = None,
             solution = replicate (nat (sz * sz)) None, fixedClues = replicate (nat (sz * sz)) None,
             allNodes = [], solutionCount = 0\<rparr>))"
proof (cases "sz < 0")
  case True
  then show ?thesis by (simp add: construct_def)
next
  case nn: False
  then have z: "0 \<le> sz" by simp
  have sq0: "0 \<le> sz * sz" by simp
  have cu0: "0 \<le> sz * (sz * sz)" using z by simp
  show ?thesis
  proof (cases "1290 < sz")
    case True
    show ?thesis
    proof (cases "sz * sz \<le> 2147483647")
      case True
      have "\<not> sz * (sz * sz) \<le> 2147483647" using cube_overflow[OF \<open>1290 < sz\<close> True] .
      then show ?thesis using \<open>1290 < sz\<close> nn
        by (simp add: construct_def int_ok_def INT_MAX_def INT_MIN_def Let_def)
    next
      case False
      then show ?thesis using \<open>1290 < sz\<close> nn
        by (simp add: construct_def int_ok_def INT_MAX_def INT_MIN_def Let_def)
    qed
  next
    case False
    then have l: "sz \<le> 1290" by simp
    have a: "sz * sz \<le> 1664100" using square_fits[OF z l] .
    have b: "sz * (sz * sz) \<le> 2147483647" using cube_fits[OF z] l by simp
    have lo: "- 536870912 \<le> sz * sz" "- 2147483648 \<le> sz * sz"
        "- 2147483648 \<le> sz * (sz * sz)"
      using sq0 cu0 by linarith+
    show ?thesis using nn l a b z lo
      by (simp add: construct_def int_ok_def INT_MAX_def INT_MIN_def Let_def vector_fill_def)
  qed
qed

lemma construct_4: "construct 4 = Some (Inr solver4)"
proof -
  have "\<lfloor>sqrt (real_of_int (2 * 2))\<rfloor> = \<bar>2\<bar>" by (rule floor_sqrt_square)
  then have "\<lfloor>sqrt (real_of_int 4)\<rfloor> = 2" by simp
  then show ?thesis by (simp add: construct_eq solver4_def)
qed

text \<open>
  Claim C7 says that construction succeeds for every perfect square \<open>s = k\<^sup>2\<close> with
  \<open>k \<ge> 2\<close>, fails with the invalid-argument error for every positive non-square, and has no
  other outcome. The constructor computes \<^verbatim>\<open>size * size\<close> and \<^verbatim>\<open>size * cellCount\<close> in
  \<^verbatim>\<open>int\<close> and builds two vectors of \<^verbatim>\<open>cellCount\<close> entries before it tests the block size:
  for the perfect square \<open>2147395600 = 46340\<^sup>2\<close> the product \<^verbatim>\<open>size * size\<close> overflows,
  the behaviour is undefined and no solver is returned.
\<close>

theorem construct_overflow_counterexample:
  "(\<exists>k\<ge>2. (2147395600::int) = k * k) \<and> (\<nexists>sv. construct 2147395600 = Some (Inr sv))"
proof -
  have "(2147395600::int) = 46340 * 46340" by simp
  then have "\<exists>k\<ge>2. (2147395600::int) = k * k" by (intro exI[of _ 46340]) simp
  then show ?thesis by (simp add: construct_eq)
qed

text \<open>
  Claim C7, amended. The sizes whose cube fits an \<^verbatim>\<open>int\<close> are those up to 1290. For a
  positive size \<open>s \<le> 1290\<close> construction succeeds if \<open>s\<close> is a perfect square (then the block
  size is its root and \<open>cellCount = s\<^sup>2\<close>) and fails with the invalid-argument error
  otherwise; for \<open>s > 1290\<close> the constructor overflows and has no defined outcome.
\<close>

theorem construct_outcomes:
  fixes s :: int
  assumes "0 < s"
  shows "(s \<le> 1290 \<and> (\<exists>k. s = k * k) \<longrightarrow>
            (\<exists>sv. construct s = Some (Inr sv) \<and> gridSize sv = nat s
               \<and> int (blockSize sv) * int (blockSize sv) = s \<and> cellCount sv = nat (s * s)))
       \<and> (s \<le> 1290 \<and> (\<nexists>k. s = k * k) \<longrightarrow> construct s = Some (Inl InvalidArgument))
       \<and> (1290 < s \<longrightarrow> construct s = None)"
proof -
  have z: "0 \<le> s" using assms by simp
  have f: "0 \<le> \<lfloor>sqrt (real_of_int s)\<rfloor>" using z by simp
  show ?thesis using assms construct_square_iff[OF z] f
    by (auto simp: construct_eq)
qed

lemma five_not_square: "\<nexists>k::int. 5 = k * k"
proof
  assume "\<exists>k::int. 5 = k * k"
  then obtain k :: int where k: "5 = k * k" by blast
  have "\<bar>k\<bar> \<le> 2 \<or> 3 \<le> \<bar>k\<bar>" by arith
  then show False
  proof
    assume "\<bar>k\<bar> \<le> 2"
    then have "\<bar>k\<bar> * \<bar>k\<bar> \<le> 2 * 2" by (intro mult_mono) auto
    then show False using k by simp
  next
    assume "3 \<le> \<bar>k\<bar>"
    then have "3 * 3 \<le> \<bar>k\<bar> * \<bar>k\<bar>" by (intro mult_mono) auto
    then show False using k by simp
  qed
qed

theorem construct_outcomes_witness:
  "(\<exists>sv. construct 4 = Some (Inr sv) \<and> gridSize sv = 4 \<and> cellCount sv = 16)
     \<and> construct 5 = Some (Inl InvalidArgument) \<and> construct 1296 = None"
proof -
  have a: "\<exists>k. (4::int) = k * k" by (rule exI[of _ 2]) simp
  have "\<exists>sv. construct 4 = Some (Inr sv) \<and> gridSize sv = 4 \<and> cellCount sv = 16"
    using construct_outcomes[of 4] a by auto
  moreover have "construct 5 = Some (Inl InvalidArgument)"
    using construct_outcomes[of 5] five_not_square by simp
  moreover have "construct 1296 = None"
    using construct_outcomes[of 1296] by simp
  ultimately show ?thesis by simp
qed

section \<open>Validation of the puzzle dimensions in solve\<close>

text \<open>
  Claim C6 says that \<open>solve\<close> throws the invalid-argument error exactly when the puzzle is
  not an \<open>N \<times> N\<close> grid, in particular for every puzzle one of whose rows has a length
  other than \<open>N\<close>. The check under the comment \<^verbatim>\<open>// Validate puzzle dimensions\<close> reads the
  number of rows and the length of row 0 only: the error is thrown exactly when one of
  these two differs from \<open>N\<close>. So no true \<open>N \<times> N\<close> puzzle is rejected, but a puzzle whose
  first row is good and a later row is short or long is accepted.
\<close>

theorem solve_invalid_argument_iff:
  "solve s puzzle searchLimit = Some (Inl InvalidArgument) \<longleftrightarrow>
     (length puzzle \<noteq> gridSize s \<or> (puzzle \<noteq> [] \<and> length (puzzle ! 0) \<noteq> gridSize s))"
  by (auto simp: solve_def Let_def split: option.splits bind_splits)

text \<open>
  The 4\<times>4 solver does not reject the 4-row puzzle whose second row has three entries.
\<close>

theorem solve_ragged_not_rejected:
  "construct 4 = Some (Inr solver4) \<and> length ragged4 = gridSize solver4
   \<and> length (ragged4 ! 1) = 3 \<and> gridSize solver4 = 4
   \<and> solve solver4 ragged4 1 \<noteq> Some (Inl InvalidArgument)"
  using solve_invalid_argument_iff[of solver4 ragged4 1] construct_4
  by (simp add: ragged4_def solver4_def)

section \<open>Arithmetic of the row and column encodings\<close>

lemma step_mod:
  assumes "0 < (N::nat)"
  shows "(a = i \<or> (i + N \<le> a \<and> (a - (i + N)) mod N = 0)) = (i \<le> a \<and> (a - i) mod N = 0)"
proof (cases "i + N \<le> a")
  case True
  then have "a - i = (a - (i + N)) + N" by simp
  then have "(a - i) mod N = (a - (i + N)) mod N" by (metis mod_add_self2)
  then show ?thesis using True assms by auto
next
  case False
  show ?thesis
  proof (cases "i \<le> a")
    case True
    then have "a - i < N" using False by simp
    then have "(a - i) mod N = a - i" by simp
    then show ?thesis using True False by auto
  next
    case False
    then show ?thesis by auto
  qed
qed

lemma divmod_unique:
  assumes "v < N" "v' < N"
  shows "(q * N + v = q' * N + v') = (q = q' \<and> v = (v'::nat))"
proof
  assume e: "q * N + v = q' * N + v'"
  have "(q * N + v) mod N = v" "(q' * N + v') mod N = v'" using assms by simp_all
  then have v: "v = v'" using e by simp
  have "(q * N + v) div N = q" "(q' * N + v') div N = q'" using assms by simp_all
  then have "q = q'" using e by simp
  then show "q = q' \<and> v = v'" using v by simp
qed simp

lemma row_band:
  assumes "0 < N" "v < N"
  shows "(q * (N * N) + v \<le> a \<and> a < (q + 1) * (N * N) \<and> (a - (q * (N * N) + v)) mod N = 0)
     = (a div (N * N) = q \<and> a mod N = (v::nat))"
proof
  assume h: "q * (N * N) + v \<le> a \<and> a < (q + 1) * (N * N) \<and> (a - (q * (N * N) + v)) mod N = 0"
  have "a div (N * N) = q"
    by (rule div_nat_eqI) (use h in \<open>simp_all add: mult.commute\<close>)
  moreover have "a mod N = v"
  proof -
    obtain k where k: "a - (q * (N * N) + v) = N * k"
      using h by (auto simp: mod_eq_0_iff_dvd)
    have "a = (a - (q * (N * N) + v)) + (q * (N * N) + v)" using h by simp
    then have "a = N * k + (q * (N * N) + v)" using k by simp
    then have "a = v + N * (k + q * N)" by (simp add: algebra_simps)
    then have "a mod N = (v + N * (k + q * N)) mod N" by simp
    also have "\<dots> = v" using assms by simp
    finally show ?thesis .
  qed
  ultimately show "a div (N * N) = q \<and> a mod N = v" by simp
next
  assume h: "a div (N * N) = q \<and> a mod N = v"
  define r where "r = a mod (N * N)"
  have a: "a = q * (N * N) + r" using h div_mult_mod_eq[of a "N * N"] by (simp add: r_def)
  have rlt: "r < N * N" using assms by (simp add: r_def)
  have "r mod N = v" using h assms by (simp add: r_def mod_mult2_eq)
  then have r: "r = (r div N) * N + v" by (metis div_mult_mod_eq)
  then have vr: "v \<le> r" by simp
  have "(r - v) mod N = 0" using r by (metis add_diff_cancel_right' mod_mult_self2_is_0)
  moreover have "a - (q * (N * N) + v) = r - v" using a vr by simp
  ultimately show "q * (N * N) + v \<le> a \<and> a < (q + 1) * (N * N) \<and> (a - (q * (N * N) + v)) mod N = 0"
    using a vr rlt by simp
qed

lemma enc_mod: "v < N \<Longrightarrow> (r * (N * N) + c * N + v) mod N = (v::nat)"
proof -
  assume a: "v < N"
  have "r * (N * N) + c * N + v = v + (r * N + c) * N" by (simp add: algebra_simps)
  then show ?thesis using a by simp
qed

lemma enc_div_N: "v < N \<Longrightarrow> (r * (N * N) + c * N + v) div N = r * N + (c::nat)"
proof -
  assume a: "v < N"
  have "r * (N * N) + c * N + v = v + (r * N + c) * N" by (simp add: algebra_simps)
  then show ?thesis using a by simp
qed

lemma enc_mid: "v < N \<Longrightarrow> c < N \<Longrightarrow> (r * (N * N) + c * N + v) div N mod N = (c::nat)"
  by (simp add: enc_div_N)

lemma enc_div: "v < N \<Longrightarrow> c < N \<Longrightarrow> (r * (N * N) + c * N + v) div (N * N) = (r::nat)"
proof -
  assume a: "v < N" "c < N"
  have "(r * (N * N) + c * N + v) div (N * N) = (r * (N * N) + c * N + v) div N div N"
    by (simp add: div_mult2_eq)
  also have "\<dots> = (r * N + c) div N" using a by (simp add: enc_div_N)
  also have "\<dots> = r" using a by simp
  finally show ?thesis .
qed

lemma dec_enc: "(i::nat) = (i div (N * N)) * (N * N) + (i div N mod N) * N + i mod N"
proof -
  have "i = (i div N) * N + i mod N" by simp
  moreover have "i div N = (i div N div N) * N + i div N mod N" by simp
  ultimately have "i = ((i div N div N) * N + i div N mod N) * N + i mod N" by metis
  then show ?thesis by (metis div_mult2_eq add_mult_distrib mult.assoc)
qed

lemma dec_lt: "i < N * N * N \<Longrightarrow> i div (N * N) < (N::nat)"
  by (simp add: less_mult_imp_div_less mult.commute mult.left_commute)

lemma pair_lt: "q < N \<Longrightarrow> v < N \<Longrightarrow> q * N + v < N * (N::nat)"
proof -
  assume a: "q < N" "v < N"
  then have "q + 1 \<le> N" by simp
  then have "(q + 1) * N \<le> N * N" by (rule mult_le_mono1)
  then show ?thesis using a by (simp add: algebra_simps)
qed

lemma triple_lt: "r < N \<Longrightarrow> c < N \<Longrightarrow> v < N \<Longrightarrow> r * (N * N) + c * N + v < N * N * (N::nat)"
proof -
  assume a: "r < N" "c < N" "v < N"
  have "c * N + v < N * N" using a by (simp add: pair_lt)
  then have "r * (N * N) + c * N + v < (r + 1) * (N * N)" by (simp add: algebra_simps)
  also have "\<dots> \<le> N * (N * N)" using a by (intro mult_le_mono1) simp
  finally show ?thesis by (simp add: mult.assoc)
qed

lemma block_band:
  assumes B: "0 < (B::nat)" and N: "N = B * B" and lt: "br < B" "bc < B" "v < N" and a: "a < N * N * N"
  shows "(\<exists>l'<B. \<exists>k'<B. a = br * B * (N * N) + bc * B * N + v + l' * N + k' * (N * N))
     = ((br * B + bc) * N + v = ((a div (N * N)) div B * B + (a div N mod N) div B) * N + a mod N)"
proof
  assume "\<exists>l'<B. \<exists>k'<B. a = br * B * (N * N) + bc * B * N + v + l' * N + k' * (N * N)"
  then obtain l' k' where lk: "l' < B" "k' < B"
      and ae: "a = br * B * (N * N) + bc * B * N + v + l' * N + k' * (N * N)" by blast
  have ae': "a = (br * B + k') * (N * N) + (bc * B + l') * N + v"
    unfolding ae by (simp add: add_mult_distrib)
  have r: "br * B + k' < N" and c: "bc * B + l' < N"
    using lt lk pair_lt[of br B k'] pair_lt[of bc B l'] N by simp_all
  have "a div (N * N) = br * B + k'" unfolding ae' by (rule enc_div[OF lt(3) c])
  moreover have "a div N mod N = bc * B + l'" unfolding ae' by (rule enc_mid[OF lt(3) c])
  moreover have "a mod N = v" unfolding ae' by (rule enc_mod[OF lt(3)])
  ultimately show "(br * B + bc) * N + v = ((a div (N * N)) div B * B + (a div N mod N) div B) * N + a mod N"
    using lk by simp
next
  assume h: "(br * B + bc) * N + v = ((a div (N * N)) div B * B + (a div N mod N) div B) * N + a mod N"
  have N0: "0 < N" using B N by simp
  have av: "a mod N < N" using N0 by simp
  have acl: "a div N mod N < B * B" using N0 N by simp
  have 1: "br * B + bc = (a div (N * N)) div B * B + (a div N mod N) div B" and 2: "v = a mod N"
    using h divmod_unique[OF lt(3) av] by auto
  have "(a div N mod N) div B < B" using acl by (simp add: less_mult_imp_div_less)
  then have 3: "br = (a div (N * N)) div B" and 4: "bc = (a div N mod N) div B"
    using 1 divmod_unique[OF lt(2), of "(a div N mod N) div B" br "(a div (N * N)) div B"] by auto
  let ?k = "(a div (N * N)) mod B" and ?l = "(a div N mod N) mod B"
  have "a div (N * N) = br * B + ?k" using 3 by simp
  moreover have "a div N mod N = bc * B + ?l" using 4 by simp
  ultimately have "a = (br * B + ?k) * (N * N) + (bc * B + ?l) * N + v"
    using dec_enc[of a N] 2 by simp
  then have "a = br * B * (N * N) + bc * B * N + v + ?l * N + ?k * (N * N)"
    by (simp add: add_mult_distrib)
  moreover have "?l < B" "?k < B" using B by simp_all
  ultimately show "\<exists>l'<B. \<exists>k'<B. a = br * B * (N * N) + bc * B * N + v + l' * N + k' * (N * N)"
    by blast
qed

lemma pair_lt_gen: "q < B \<Longrightarrow> v < N \<Longrightarrow> q * N + v < B * (N::nat)"
proof -
  assume a: "q < B" "v < N"
  then have "q + 1 \<le> B" by simp
  then have "(q + 1) * N \<le> B * N" by (rule mult_le_mono1)
  then show ?thesis using a by (simp add: algebra_simps)
qed

lemma tempA:
  assumes "v + 1 < N" "bc < (B::nat)"
  shows "((br * B + bc) * N + v + 1) mod (B * N) \<noteq> 0" "((br * B + bc) * N + v + 1) mod N \<noteq> 0"
proof -
  have e: "(br * B + bc) * N + v + 1 = br * (B * N) + (bc * N + (v + 1))"
    by (simp add: algebra_simps)
  have lt: "bc * N + (v + 1) < B * N" using assms by (intro pair_lt_gen) simp_all
  have "((br * B + bc) * N + v + 1) mod (B * N) = bc * N + (v + 1)"
    unfolding e using lt by simp
  then show "((br * B + bc) * N + v + 1) mod (B * N) \<noteq> 0" by simp
  have e2: "(br * B + bc) * N + v + 1 = (v + 1) + (br * B + bc) * N" by simp
  have "((br * B + bc) * N + v + 1) mod N = v + 1"
    unfolding e2 using assms by simp
  then show "((br * B + bc) * N + v + 1) mod N \<noteq> 0" by simp
qed

lemma tempB:
  assumes "v + 1 = N" "bc + 1 < (B::nat)"
  shows "((br * B + bc) * N + v + 1) mod (B * N) \<noteq> 0" "((br * B + bc) * N + v + 1) mod N = 0"
proof -
  have N0: "0 < N" using assms by simp
  have e: "(br * B + bc) * N + v + 1 = br * (B * N) + ((bc + 1) * N + 0)"
    using assms(1) by (simp add: algebra_simps)
  have lt: "(bc + 1) * N + 0 < B * N" using assms N0 by (intro pair_lt_gen) simp_all
  have "((br * B + bc) * N + v + 1) mod (B * N) = (bc + 1) * N + 0"
    unfolding e using lt by simp
  then show "((br * B + bc) * N + v + 1) mod (B * N) \<noteq> 0" using N0 by simp
  have e2: "(br * B + bc) * N + v + 1 = (br * B + bc + 1) * N"
    using assms(1) by (simp add: algebra_simps)
  show "((br * B + bc) * N + v + 1) mod N = 0" unfolding e2 by simp
qed

lemma tempC:
  assumes "v + 1 = N" "bc + 1 = (B::nat)"
  shows "((br * B + bc) * N + v + 1) mod (B * N) = 0"
proof -
  have "(br * B + bc) * N + v + 1 = (br * B + (bc + 1)) * N"
    using assms(1) by (simp add: algebra_simps)
  also have "\<dots> = (br + 1) * (B * N)" unfolding assms(2) by (simp add: algebra_simps)
  finally show ?thesis by simp
qed

lemma xB:
  assumes "v + 1 = N" "0 < (B::nat)"
  shows "br * B * cc + bc * B * N + v + (N * (B - 1) + 1) = br * B * cc + (bc + 1) * B * N + 0"
proof -
  obtain b where b: "B = b + 1" using assms(2) by (metis Suc_eq_plus1 gr0_implies_Suc)
  show ?thesis using assms(1) unfolding b by (simp add: algebra_simps)
qed

lemma xC:
  assumes "v + 1 = N" "bc + 1 = (B::nat)" "N = B * B" "cc = N * N"
  shows "br * B * cc + bc * B * N + v + ((B - 1) * cc + (B - 1) * N + 1) = (br + 1) * B * cc + 0 * B * N + 0"
proof -
  have b1: "B - 1 = bc" using assms(2) by simp
  have "bc * B + bc + 1 = B * B" unfolding assms(2)[symmetric] by (simp add: algebra_simps)
  then have "(bc * B + bc + 1) * N = cc" using assms(3,4) by simp
  then have s1: "bc * B * N + bc * N + N = cc" by (simp add: algebra_simps)
  have "br * B * cc + bc * B * N + v + (bc * cc + bc * N + 1)
      = br * B * cc + bc * cc + (bc * B * N + bc * N + (v + 1))" by simp
  also have "\<dots> = br * B * cc + bc * cc + (bc * B * N + bc * N + N)" by (simp only: assms(1))
  also have "\<dots> = br * B * cc + bc * cc + cc" by (simp only: s1)
  also have "\<dots> = br * B * cc + (bc + 1) * cc" by simp
  also have "\<dots> = (br + 1) * B * cc" unfolding assms(2) by (simp add: algebra_simps)
  finally show ?thesis unfolding b1 by simp
qed

lemma card_cell:
  assumes "0 < (N::nat)" "j < N * N"
  shows "card {i. i < N * N * N \<and> i div N = j} = N"
proof -
  have "{i. i < N * N * N \<and> i div N = j} = {j * N ..< j * N + N}"
  proof (intro set_eqI iffI)
    fix i assume "i \<in> {i. i < N * N * N \<and> i div N = j}"
    then have d: "i div N = j" by simp
    have "i div N * N \<le> i" by (rule div_times_less_eq_dividend)
    then have "j * N \<le> i" using d by simp
    moreover have "i < N + (i div N) * N" using assms(1) by (rule dividend_less_div_times)
    then have "i < j * N + N" using d by simp
    ultimately show "i \<in> {j * N ..< j * N + N}" by simp
  next
    fix i assume "i \<in> {j * N ..< j * N + N}"
    then have b: "j * N \<le> i" "i < j * N + N" by simp_all
    have d: "i div N = j" by (rule div_nat_eqI) (use b in \<open>simp_all add: mult.commute\<close>)
    have "j * N + N \<le> N * N * N"
    proof -
      have "j + 1 \<le> N * N" using assms(2) by simp
      then have "(j + 1) * N \<le> N * N * N" by (rule mult_le_mono1)
      then show ?thesis by (simp add: algebra_simps)
    qed
    then show "i \<in> {i. i < N * N * N \<and> i div N = j}" using b d by simp
  qed
  then show ?thesis by simp
qed

lemma card_row:
  assumes "0 < (N::nat)" "q < N" "v < N"
  shows "card {i. i < N * N * N \<and> i div (N * N) = q \<and> i mod N = v} = N"
proof -
  let ?f = "\<lambda>c. q * (N * N) + c * N + v"
  have "{i. i < N * N * N \<and> i div (N * N) = q \<and> i mod N = v} = ?f ` {0..<N}"
  proof (intro set_eqI iffI)
    fix i assume "i \<in> {i. i < N * N * N \<and> i div (N * N) = q \<and> i mod N = v}"
    then have h: "i div (N * N) = q" "i mod N = v" by simp_all
    have "(i div (N * N)) * (N * N) + (i div N mod N) * N + i mod N = i" by (rule dec_enc[symmetric])
    then have "?f (i div N mod N) = i" by (simp only: h)
    then have e: "i = ?f (i div N mod N)" by (rule sym)
    have "i div N mod N \<in> {0..<N}" using assms(1) by simp
    then show "i \<in> ?f ` {0..<N}" by (rule image_eqI[of i ?f _ "{0..<N}", OF e])
  next
    fix i assume "i \<in> ?f ` {0..<N}"
    then obtain c where c: "c < N" "i = ?f c" by auto
    have "i < N * N * N" unfolding c(2) by (rule triple_lt[OF assms(2) c(1) assms(3)])
    moreover have "i div (N * N) = q" unfolding c(2) by (rule enc_div[OF assms(3) c(1)])
    moreover have "i mod N = v" unfolding c(2) by (rule enc_mod[OF assms(3)])
    ultimately show "i \<in> {i. i < N * N * N \<and> i div (N * N) = q \<and> i mod N = v}" by simp
  qed
  moreover have "inj_on ?f {0..<N}" using assms(1) by (auto simp: inj_on_def)
  ultimately show ?thesis by (simp add: card_image)
qed

lemma card_col:
  assumes "0 < (N::nat)" "m < N * N"
  shows "card {i. i < N * N * N \<and> i mod (N * N) = m} = N"
proof -
  let ?f = "\<lambda>r. r * (N * N) + m"
  have "{i. i < N * N * N \<and> i mod (N * N) = m} = ?f ` {0..<N}"
  proof (intro set_eqI iffI)
    fix i assume "i \<in> {i. i < N * N * N \<and> i mod (N * N) = m}"
    then have h: "i < N * N * N" "i mod (N * N) = m" by simp_all
    have e: "i = ?f (i div (N * N))" using h(2) by (metis div_mult_mod_eq)
    have "i div (N * N) \<in> {0..<N}" using dec_lt[OF h(1)] by simp
    then show "i \<in> ?f ` {0..<N}" by (rule image_eqI[of i ?f _ "{0..<N}", OF e])
  next
    fix i assume "i \<in> ?f ` {0..<N}"
    then obtain r where r: "r < N" "i = ?f r" by auto
    have "r * (N * N) + m < (r + 1) * (N * N)" using assms(2) by simp
    also have "\<dots> \<le> N * (N * N)" using r(1) by (intro mult_le_mono1) simp
    finally have "i < N * N * N" unfolding r(2) by (simp add: mult.assoc)
    moreover have "i mod (N * N) = m" unfolding r(2) using assms(2) by simp
    ultimately show "i \<in> {i. i < N * N * N \<and> i mod (N * N) = m}" by simp
  qed
  moreover have "inj_on ?f {0..<N}" using assms(1) by (auto simp: inj_on_def)
  ultimately show ?thesis by (simp add: card_image)
qed

lemma card_block:
  assumes B: "0 < (B::nat)" and N: "N = B * B" and lt: "br < B" "bc < B" "v < N"
  shows "card {i. i < N * N * N \<and> (br * B + bc) * N + v
            = ((i div (N * N)) div B * B + (i div N mod N) div B) * N + i mod N} = N"
proof -
  let ?x = "br * B * (N * N) + bc * B * N + v"
  let ?f = "\<lambda>(l, k). ?x + l * N + k * (N * N)"
  have N0: "0 < N" using B N by simp
  have rng: "\<And>l k. l < B \<Longrightarrow> k < B \<Longrightarrow> ?x + l * N + k * (N * N) < N * N * N"
  proof -
    fix l k assume lk: "l < B" "k < B"
    have e: "?x + l * N + k * (N * N) = (br * B + k) * (N * N) + (bc * B + l) * N + v"
      by (simp add: add_mult_distrib)
    have "br * B + k < N" "bc * B + l < N"
      using lt lk N pair_lt[of br B k] pair_lt[of bc B l] by simp_all
    then show "?x + l * N + k * (N * N) < N * N * N" unfolding e using lt(3) by (intro triple_lt)
  qed
  have "{i. i < N * N * N \<and> (br * B + bc) * N + v
            = ((i div (N * N)) div B * B + (i div N mod N) div B) * N + i mod N}
      = {i. i < N * N * N \<and> (\<exists>l'<B. \<exists>k'<B. i = ?x + l' * N + k' * (N * N))}"
    using block_band[OF B N lt] by auto
  also have "\<dots> = ?f ` ({0..<B} \<times> {0..<B})"
  proof (intro set_eqI iffI)
    fix i assume "i \<in> {i. i < N * N * N \<and> (\<exists>l'<B. \<exists>k'<B. i = ?x + l' * N + k' * (N * N))}"
    then obtain l' k' where "l' < B" "k' < B" "i = ?f (l', k')" by auto
    then show "i \<in> ?f ` ({0..<B} \<times> {0..<B})" by (intro image_eqI[of _ _ "(l', k')"]) simp_all
  next
    fix i assume "i \<in> ?f ` ({0..<B} \<times> {0..<B})"
    then obtain l' k' where lk: "l' < B" "k' < B" "i = ?x + l' * N + k' * (N * N)" by auto
    then show "i \<in> {i. i < N * N * N \<and> (\<exists>l'<B. \<exists>k'<B. i = ?x + l' * N + k' * (N * N))}"
      using rng[OF lk(1,2)] by blast
  qed
  finally have s: "{i. i < N * N * N \<and> (br * B + bc) * N + v
            = ((i div (N * N)) div B * B + (i div N mod N) div B) * N + i mod N}
      = ?f ` ({0..<B} \<times> {0..<B})" .
  have inj: "inj_on ?f ({0..<B} \<times> {0..<B})"
  proof (rule inj_onI)
    fix p p' assume p: "p \<in> {0..<B} \<times> {0..<B}" "p' \<in> {0..<B} \<times> {0..<B}" and e: "?f p = ?f p'"
    obtain l k l' k' where pp: "p = (l, k)" "p' = (l', k')" by (metis surj_pair)
    have lk: "l < B" "k < B" "l' < B" "k' < B" using p pp by simp_all
    have "k * (N * N) + l * N = k' * (N * N) + l' * N" using e pp by simp
    then have "(k * N + l) * N = (k' * N + l') * N" by (simp add: algebra_simps)
    then have "k * N + l = k' * N + l'" using N0 by simp
    moreover have "B \<le> N" using B N by simp
    then have "l < N" "l' < N" using lk by simp_all
    ultimately show "p = p'" using divmod_unique[of l N l' k k'] pp by simp
  qed
  show ?thesis unfolding s using inj N by (simp add: card_image)
qed

section \<open>The exact-cover matrix\<close>

lemma dims_nth: "dims M R C \<Longrightarrow> a < R \<Longrightarrow> length (M ! a) = C"
  by (auto simp: dims_def)

lemma mset_true_adds:
  assumes "dims M R C" "i < R" "j < C"
  shows "\<exists>M'. mset_true M i j = Some M' \<and> adds R C M M' (\<lambda>a b. a = i \<and> b = j)"
proof -
  let ?M' = "M[i := (M ! i)[j := True]]"
  have len: "length (M ! i) = C" using assms by (simp add: dims_nth)
  have 1: "mset_true M i j = Some ?M'"
    using assms len by (simp add: mset_true_def dims_def)
  have 2: "dims ?M' R C"
    using assms len unfolding dims_def
    by (auto dest!: set_update_subset_insert[THEN subsetD])
  have 3: "\<forall>a<R. \<forall>b<C. ?M' ! a ! b = (M ! a ! b \<or> (a = i \<and> b = j))"
    using assms len by (auto simp: nth_list_update dims_def)
  show ?thesis using 1 2 3 assms(1) unfolding adds_def by blast
qed

lemma adds_trans:
  "adds R C M M1 P \<Longrightarrow> adds R C M1 M2 Q \<Longrightarrow> adds R C M M2 (\<lambda>a b. P a b \<or> Q a b)"
  by (auto simp: adds_def)

lemma adds_cong:
  "adds R C M M' P \<Longrightarrow> (\<And>a b. a < R \<Longrightarrow> b < C \<Longrightarrow> P a b = Q a b) \<Longrightarrow> adds R C M M' Q"
  by (auto simp: adds_def)

lemma adds_refl: "dims M R C \<Longrightarrow> adds R C M M (\<lambda>a b. False)"
  by (auto simp: adds_def)

lemma adds_dims: "adds R C M M' P \<Longrightarrow> dims M' R C"
  by (auto simp: adds_def)

lemma div_lt_cube: "0 < N \<Longrightarrow> i < N * N * N \<Longrightarrow> i div N < N * (N::nat)"
  by (simp add: less_mult_imp_div_less mult.commute)

lemma suc_wrap:
  "0 < N \<Longrightarrow> N \<le> i mod N + 1 \<Longrightarrow> (i + 1) div N = i div N + 1 \<and> (i + 1) mod N = (0::nat)"
  using mod_less_divisor[of N i] by (auto simp: div_Suc mod_Suc simp del: mod_less_divisor)

lemma suc_nowrap:
  "\<not> N \<le> i mod N + 1 \<Longrightarrow> (i + 1) div N = i div N \<and> (i + 1) mod N = i mod N + (1::nat)"
  by (auto simp: div_Suc mod_Suc)

lemma constraint1_adds:
  "0 < gridSize s \<Longrightarrow> exactCoverRows s = gridSize s * gridSize s * gridSize s \<Longrightarrow>
   gridSize s * gridSize s \<le> C \<Longrightarrow> dims M (exactCoverRows s) C \<Longrightarrow>
   j = i div gridSize s \<Longrightarrow> counter = i mod gridSize s \<Longrightarrow>
   \<exists>M'. constraint1 s i j counter M = Some M' \<and>
        adds (exactCoverRows s) C M M' (\<lambda>a b. i \<le> a \<and> b = a div gridSize s)"
proof (induction s i j counter M rule: constraint1.induct)
  case (1 s i j counter M)
  let ?N = "gridSize s" and ?R = "exactCoverRows s"
  show ?case
  proof (cases "i < ?R")
    case False
    have "constraint1 s i j counter M = Some M"
      using False by (subst constraint1.simps) simp
    moreover have "adds ?R C M M (\<lambda>a b. i \<le> a \<and> b = a div ?N)"
      using False by (intro adds_cong[OF adds_refl[OF "1.prems"(4)]]) auto
    ultimately show ?thesis by blast
  next
    case True
    have jC: "j < C"
      using True "1.prems" div_lt_cube[of ?N i] by simp
    obtain M1 where M1: "mset_true M i j = Some M1" "adds ?R C M M1 (\<lambda>a b. a = i \<and> b = j)"
      using mset_true_adds[OF "1.prems"(4) True jC] by blast
    have d1: "dims M1 ?R C" using M1(2) by (rule adds_dims)
    show ?thesis
    proof (cases "?N \<le> counter + 1")
      case wrap: True
      have nx: "j + 1 = (i + 1) div ?N" "0 = (i + 1) mod ?N"
        using wrap "1.prems" suc_wrap[of ?N i] by auto
      obtain M' where M': "constraint1 s (i + 1) (j + 1) 0 M1 = Some M'"
          "adds ?R C M1 M' (\<lambda>a b. i + 1 \<le> a \<and> b = a div ?N)"
        using "1.IH"(1)[OF True M1(1) wrap "1.prems"(1,2,3) d1 nx] by blast
      have "constraint1 s i j counter M = Some M'"
        using True M1(1) wrap M'(1) by (subst constraint1.simps) simp
      moreover have "adds ?R C M M' (\<lambda>a b. i \<le> a \<and> b = a div ?N)"
        using "1.prems"(5) by (intro adds_cong[OF adds_trans[OF M1(2) M'(2)]])
          (auto simp: Suc_le_eq le_eq_less_or_eq)
      ultimately show ?thesis by blast
    next
      case nowrap: False
      have nx: "j = (i + 1) div ?N" "counter + 1 = (i + 1) mod ?N"
        using nowrap "1.prems" suc_nowrap[of ?N i] by auto
      obtain M' where M': "constraint1 s (i + 1) j (counter + 1) M1 = Some M'"
          "adds ?R C M1 M' (\<lambda>a b. i + 1 \<le> a \<and> b = a div ?N)"
        using "1.IH"(2)[OF True M1(1) nowrap "1.prems"(1,2,3) d1 nx] by blast
      have "constraint1 s i j counter M = Some M'"
        using True M1(1) nowrap M'(1) by (subst constraint1.simps) simp
      moreover have "adds ?R C M M' (\<lambda>a b. i \<le> a \<and> b = a div ?N)"
        using "1.prems"(5) by (intro adds_cong[OF adds_trans[OF M1(2) M'(2)]])
          (auto simp: Suc_le_eq le_eq_less_or_eq)
      ultimately show ?thesis by blast
    qed
  qed
qed

lemma constraint3_adds:
  "0 < cellCount s \<Longrightarrow> 3 * cellCount s \<le> C \<Longrightarrow> dims M (exactCoverRows s) C \<Longrightarrow>
   j = 2 * cellCount s + i mod cellCount s \<Longrightarrow>
   \<exists>M'. constraint3 s i j M = Some M' \<and>
        adds (exactCoverRows s) C M M' (\<lambda>a b. i \<le> a \<and> b = 2 * cellCount s + a mod cellCount s)"
proof (induction s i j M rule: constraint3.induct)
  case (1 s i j M)
  let ?cc = "cellCount s" and ?R = "exactCoverRows s"
  show ?case
  proof (cases "i < ?R")
    case False
    have "constraint3 s i j M = Some M"
      using False by (subst constraint3.simps) simp
    moreover have "adds ?R C M M (\<lambda>a b. i \<le> a \<and> b = 2 * ?cc + a mod ?cc)"
      using False by (intro adds_cong[OF adds_refl[OF "1.prems"(3)]]) auto
    ultimately show ?thesis by blast
  next
    case True
    have jC: "j < C"
      using "1.prems" mod_less_divisor[of ?cc i] by linarith
    obtain M1 where M1: "mset_true M i j = Some M1" "adds ?R C M M1 (\<lambda>a b. a = i \<and> b = j)"
      using mset_true_adds[OF "1.prems"(3) True jC] by blast
    have d1: "dims M1 ?R C" using M1(2) by (rule adds_dims)
    show ?thesis
    proof (cases "3 * ?cc \<le> j + 1")
      case wrap: True
      have "?cc \<le> i mod ?cc + 1" using wrap "1.prems"(4) by simp
      then have nx: "2 * ?cc = 2 * ?cc + (i + 1) mod ?cc"
        using suc_wrap[of ?cc i] "1.prems"(1) by simp
      obtain M' where M': "constraint3 s (i + 1) (2 * ?cc) M1 = Some M'"
          "adds ?R C M1 M' (\<lambda>a b. i + 1 \<le> a \<and> b = 2 * ?cc + a mod ?cc)"
        using "1.IH"(1)[OF True M1(1) wrap "1.prems"(1,2) d1 nx] by blast
      have "constraint3 s i j M = Some M'"
        using True M1(1) wrap M'(1) by (subst constraint3.simps) simp
      moreover have "adds ?R C M M' (\<lambda>a b. i \<le> a \<and> b = 2 * ?cc + a mod ?cc)"
        using "1.prems"(4) by (intro adds_cong[OF adds_trans[OF M1(2) M'(2)]])
          (auto simp: Suc_le_eq le_eq_less_or_eq)
      ultimately show ?thesis by blast
    next
      case nowrap: False
      have "\<not> ?cc \<le> i mod ?cc + 1" using nowrap "1.prems"(4) by simp
      then have nx: "j + 1 = 2 * ?cc + (i + 1) mod ?cc"
        using suc_nowrap[of ?cc i] "1.prems"(4) by simp
      obtain M' where M': "constraint3 s (i + 1) (j + 1) M1 = Some M'"
          "adds ?R C M1 M' (\<lambda>a b. i + 1 \<le> a \<and> b = 2 * ?cc + a mod ?cc)"
        using "1.IH"(2)[OF True M1(1) nowrap "1.prems"(1,2) d1 nx] by blast
      have "constraint3 s i j M = Some M'"
        using True M1(1) nowrap M'(1) by (subst constraint3.simps) simp
      moreover have "adds ?R C M M' (\<lambda>a b. i \<le> a \<and> b = 2 * ?cc + a mod ?cc)"
        using "1.prems"(4) by (intro adds_cong[OF adds_trans[OF M1(2) M'(2)]])
          (auto simp: Suc_le_eq le_eq_less_or_eq)
      ultimately show ?thesis by blast
    qed
  qed
qed

lemma constraint2_rows_adds:
  "0 < gridSize s \<Longrightarrow> dims M R C \<Longrightarrow> j < C \<Longrightarrow> counter * cellCount s \<le> R \<Longrightarrow>
   \<exists>M'. constraint2_rows s i counter j M = Some M' \<and>
        adds R C M M' (\<lambda>a b. b = j \<and> i \<le> a \<and> a < counter * cellCount s \<and> (a - i) mod gridSize s = 0)"
proof (induction "counter * cellCount s - i" arbitrary: i M rule: less_induct)
  case less
  let ?N = "gridSize s" and ?bound = "counter * cellCount s"
  show ?case
  proof (cases "i < ?bound")
    case False
    have "constraint2_rows s i counter j M = Some M"
      using False by (subst constraint2_rows.simps) simp
    moreover have "adds R C M M (\<lambda>a b. b = j \<and> i \<le> a \<and> a < ?bound \<and> (a - i) mod ?N = 0)"
      using False by (intro adds_cong[OF adds_refl[OF less.prems(2)]]) auto
    ultimately show ?thesis by blast
  next
    case True
    have iR: "i < R" using True less.prems(4) by simp
    obtain M1 where M1: "mset_true M i j = Some M1" "adds R C M M1 (\<lambda>a b. a = i \<and> b = j)"
      using mset_true_adds[OF less.prems(2) iR less.prems(3)] by blast
    have d1: "dims M1 R C" using M1(2) by (rule adds_dims)
    have dec: "?bound - (i + ?N) < ?bound - i" using True less.prems(1) by simp
    obtain M' where M': "constraint2_rows s (i + ?N) counter j M1 = Some M'"
        "adds R C M1 M' (\<lambda>a b. b = j \<and> i + ?N \<le> a \<and> a < ?bound \<and> (a - (i + ?N)) mod ?N = 0)"
      using less.hyps[OF dec less.prems(1) d1 less.prems(3,4)] by blast
    have "constraint2_rows s i counter j M = Some M'"
      using True M1(1) M'(1) by (subst constraint2_rows.simps) simp
    moreover have "adds R C M M' (\<lambda>a b. b = j \<and> i \<le> a \<and> a < ?bound \<and> (a - i) mod ?N = 0)"
    proof (rule adds_cong[OF adds_trans[OF M1(2) M'(2)]])
      fix a b
      have "(a = i \<or> (i + ?N \<le> a \<and> (a - (i + ?N)) mod ?N = 0)) = (i \<le> a \<and> (a - i) mod ?N = 0)"
        by (rule step_mod[OF less.prems(1)])
      then show "(a = i \<and> b = j \<or> b = j \<and> i + ?N \<le> a \<and> a < ?bound \<and> (a - (i + ?N)) mod ?N = 0)
         = (b = j \<and> i \<le> a \<and> a < ?bound \<and> (a - i) mod ?N = 0)"
        using True by auto
    qed
    ultimately show ?thesis by blast
  qed
qed

lemma constraint2_adds:
  assumes N: "0 < gridSize s" and cc: "cellCount s = gridSize s * gridSize s"
    and R: "R = gridSize s * gridSize s * gridSize s" and C: "2 * cellCount s \<le> C"
  shows "dims M R C \<Longrightarrow> cellCount s \<le> j \<Longrightarrow>
   x = ((j - cellCount s) div gridSize s) * cellCount s + (j - cellCount s) mod gridSize s \<Longrightarrow>
   counter = (j - cellCount s) div gridSize s + 1 \<Longrightarrow>
   \<exists>M'. constraint2 s j x counter M = Some M' \<and>
        adds R C M M' (\<lambda>a b. j \<le> b \<and> b < 2 * cellCount s \<and>
           b = cellCount s + (a div cellCount s) * gridSize s + a mod gridSize s)"
proof (induction "2 * cellCount s - j" arbitrary: j x counter M rule: less_induct)
  case less
  let ?N = "gridSize s" and ?cc = "cellCount s"
  let ?P = "\<lambda>j a b. j \<le> b \<and> b < 2 * ?cc \<and> b = ?cc + (a div ?cc) * ?N + a mod ?N"
  show ?case
  proof (cases "j < 2 * ?cc")
    case False
    have "constraint2 s j x counter M = Some M"
      using False by (subst constraint2.simps) simp
    moreover have "adds R C M M (?P j)"
      using False by (intro adds_cong[OF adds_refl[OF less.prems(1)]]) auto
    ultimately show ?thesis by blast
  next
    case True
    define t where "t = j - ?cc"
    define q where "q = t div ?N"
    define v where "v = t mod ?N"
    have j: "j = ?cc + t" using less.prems(2) by (simp add: t_def)
    have tlt: "t < ?N * ?N" using True j cc by simp
    have qlt: "q < ?N" using tlt by (simp add: q_def less_mult_imp_div_less)
    have vlt: "v < ?N" using N by (simp add: v_def)
    have tqv: "t = q * ?N + v" by (simp add: q_def v_def)
    have x: "x = q * (?N * ?N) + v" using less.prems(3) cc by (simp add: t_def q_def v_def)
    have counter: "counter = q + 1" using less.prems(4) by (simp add: t_def q_def)
    have "(q + 1) * ?cc \<le> ?N * ?cc" using qlt by (intro mult_le_mono1) simp
    then have bound: "counter * ?cc \<le> R" using counter R cc by (simp add: mult.assoc)
    have jC: "j < C" using True C by simp
    obtain M1 where M1: "constraint2_rows s x counter j M = Some M1"
        "adds R C M M1 (\<lambda>a b. b = j \<and> x \<le> a \<and> a < counter * ?cc \<and> (a - x) mod ?N = 0)"
      using constraint2_rows_adds[OF N less.prems(1) jC bound] by blast
    have d1: "dims M1 R C" using M1(2) by (rule adds_dims)
    have band: "\<And>a b. (b = j \<and> x \<le> a \<and> a < counter * ?cc \<and> (a - x) mod ?N = 0)
        = (b = j \<and> b = ?cc + (a div ?cc) * ?N + a mod ?N)"
    proof -
      fix a b
      have "(x \<le> a \<and> a < counter * ?cc \<and> (a - x) mod ?N = 0) = (a div (?N * ?N) = q \<and> a mod ?N = v)"
        unfolding x counter cc by (rule row_band[OF N vlt])
      also have "\<dots> = (q * ?N + v = (a div (?N * ?N)) * ?N + a mod ?N)"
        using divmod_unique[OF vlt, of "a mod ?N" q "a div (?N * ?N)"] N by auto
      also have "\<dots> = (j = ?cc + (a div ?cc) * ?N + a mod ?N)"
        using j tqv cc by auto
      finally show "(b = j \<and> x \<le> a \<and> a < counter * ?cc \<and> (a - x) mod ?N = 0)
        = (b = j \<and> b = ?cc + (a div ?cc) * ?N + a mod ?N)" by auto
    qed
    have cm: "cmod (j + 1) ?N = Some ((t + 1) mod ?N)"
      using N j cc by (simp add: cmod_def)
    have dec: "2 * ?cc - (j + 1) < 2 * ?cc - j" using True by simp
    have j1: "?cc \<le> j + 1" using less.prems(2) by simp
    have t1: "j + 1 - ?cc = t + 1" using j by simp
    show ?thesis
    proof (cases "(t + 1) mod ?N = 0")
      case wrap: True
      have "?N \<le> t mod ?N + 1" using wrap N by (auto simp: mod_Suc split: if_splits)
      then have dm: "(t + 1) div ?N = q + 1" "(t + 1) mod ?N = 0"
        using suc_wrap[of ?N t] N by (simp_all add: q_def)
      have nx: "counter * ?cc = ((j + 1 - ?cc) div ?N) * ?cc + (j + 1 - ?cc) mod ?N"
        using dm counter t1 by simp
      have nc: "counter + 1 = (j + 1 - ?cc) div ?N + 1"
        using dm counter t1 by simp
      obtain M' where M': "constraint2 s (j + 1) (counter * ?cc) (counter + 1) M1 = Some M'"
          "adds R C M1 M' (?P (j + 1))"
        using less.hyps[OF dec d1 j1 nx nc] by blast
      have "constraint2 s j x counter M = Some M'"
        using True M1(1) cm wrap M'(1) by (subst constraint2.simps) simp
      moreover have "adds R C M M' (?P j)"
        by (rule adds_cong[OF adds_trans[OF M1(2) M'(2)]]) (use band True in \<open>auto simp: Suc_le_eq le_eq_less_or_eq\<close>)
      ultimately show ?thesis by blast
    next
      case nowrap: False
      have "\<not> ?N \<le> t mod ?N + 1" using nowrap N mod_less_divisor[of ?N t]
        by (auto simp: mod_Suc simp del: mod_less_divisor split: if_splits)
      then have dm: "(t + 1) div ?N = q" "(t + 1) mod ?N = v + 1"
        using suc_nowrap[of ?N t] by (simp_all add: q_def v_def)
      have nx: "x + 1 = ((j + 1 - ?cc) div ?N) * ?cc + (j + 1 - ?cc) mod ?N"
        using dm x t1 cc by simp
      have nc: "counter = (j + 1 - ?cc) div ?N + 1"
        using dm counter t1 by simp
      obtain M' where M': "constraint2 s (j + 1) (x + 1) counter M1 = Some M'"
          "adds R C M1 M' (?P (j + 1))"
        using less.hyps[OF dec d1 j1 nx nc] by blast
      have "constraint2 s j x counter M = Some M'"
        using True M1(1) cm nowrap M'(1) by (subst constraint2.simps) simp
      moreover have "adds R C M M' (?P j)"
        by (rule adds_cong[OF adds_trans[OF M1(2) M'(2)]]) (use band True in \<open>auto simp: Suc_le_eq le_eq_less_or_eq\<close>)
      ultimately show ?thesis by blast
    qed
  qed
qed

lemma constraint4_k_adds:
  "dims M R C \<Longrightarrow> j < C \<Longrightarrow> \<forall>k'<blockSize s. x + l * gridSize s + k' * cellCount s < R \<Longrightarrow>
   \<exists>M'. constraint4_k s x j l k M = Some M' \<and>
        adds R C M M' (\<lambda>a b. b = j \<and> (\<exists>k'. k \<le> k' \<and> k' < blockSize s \<and>
           a = x + l * gridSize s + k' * cellCount s))"
proof (induction "blockSize s - k" arbitrary: k M rule: less_induct)
  case less
  let ?B = "blockSize s"
  let ?P = "\<lambda>k a b. b = j \<and> (\<exists>k'. k \<le> k' \<and> k' < ?B \<and> a = x + l * gridSize s + k' * cellCount s)"
  show ?case
  proof (cases "k < ?B")
    case False
    have "constraint4_k s x j l k M = Some M"
      using False by (subst constraint4_k.simps) simp
    moreover have "adds R C M M (?P k)"
      using False by (intro adds_cong[OF adds_refl[OF less.prems(1)]]) auto
    ultimately show ?thesis by blast
  next
    case True
    have iR: "x + l * gridSize s + k * cellCount s < R" using True less.prems(3) by blast
    obtain M1 where M1: "mset_true M (x + l * gridSize s + k * cellCount s) j = Some M1"
        "adds R C M M1 (\<lambda>a b. a = x + l * gridSize s + k * cellCount s \<and> b = j)"
      using mset_true_adds[OF less.prems(1) iR less.prems(2)] by blast
    have d1: "dims M1 R C" using M1(2) by (rule adds_dims)
    have dec: "?B - (k + 1) < ?B - k" using True by simp
    obtain M' where M': "constraint4_k s x j l (k + 1) M1 = Some M'" "adds R C M1 M' (?P (k + 1))"
      using less.hyps[OF dec d1 less.prems(2,3)] by blast
    have "constraint4_k s x j l k M = Some M'"
      using True M1(1) M'(1) by (subst constraint4_k.simps) simp
    moreover have "adds R C M M' (?P k)"
    proof (rule adds_cong[OF adds_trans[OF M1(2) M'(2)]])
      fix a b
      have "\<And>k'. (k \<le> k') = (k' = k \<or> k + 1 \<le> k')" by auto
      then show "(a = x + l * gridSize s + k * cellCount s \<and> b = j \<or> ?P (k + 1) a b) = ?P k a b"
        using True by auto
    qed
    ultimately show ?thesis by blast
  qed
qed

lemma constraint4_l_adds:
  "dims M R C \<Longrightarrow> j < C \<Longrightarrow>
   \<forall>l'<blockSize s. \<forall>k'<blockSize s. x + l' * gridSize s + k' * cellCount s < R \<Longrightarrow>
   \<exists>M'. constraint4_l s x j l M = Some M' \<and>
        adds R C M M' (\<lambda>a b. b = j \<and> (\<exists>l' k'. l \<le> l' \<and> l' < blockSize s \<and> k' < blockSize s \<and>
           a = x + l' * gridSize s + k' * cellCount s))"
proof (induction "blockSize s - l" arbitrary: l M rule: less_induct)
  case less
  let ?B = "blockSize s"
  let ?P = "\<lambda>l a b. b = j \<and> (\<exists>l' k'. l \<le> l' \<and> l' < ?B \<and> k' < ?B \<and>
      a = x + l' * gridSize s + k' * cellCount s)"
  show ?case
  proof (cases "l < ?B")
    case False
    have "constraint4_l s x j l M = Some M"
      using False by (subst constraint4_l.simps) simp
    moreover have "adds R C M M (?P l)"
      using False by (intro adds_cong[OF adds_refl[OF less.prems(1)]]) auto
    ultimately show ?thesis by blast
  next
    case True
    have rng: "\<forall>k'<?B. x + l * gridSize s + k' * cellCount s < R" using True less.prems(3) by blast
    obtain M1 where M1: "constraint4_k s x j l 0 M = Some M1"
        "adds R C M M1 (\<lambda>a b. b = j \<and> (\<exists>k'. 0 \<le> k' \<and> k' < ?B \<and>
           a = x + l * gridSize s + k' * cellCount s))"
      using constraint4_k_adds[OF less.prems(1,2) rng, of 0] by blast
    have d1: "dims M1 R C" using M1(2) by (rule adds_dims)
    have dec: "?B - (l + 1) < ?B - l" using True by simp
    obtain M' where M': "constraint4_l s x j (l + 1) M1 = Some M'" "adds R C M1 M' (?P (l + 1))"
      using less.hyps[OF dec d1 less.prems(2,3)] by blast
    have "constraint4_l s x j l M = Some M'"
      using True M1(1) M'(1) by (subst constraint4_l.simps) simp
    moreover have "adds R C M M' (?P l)"
    proof (rule adds_cong[OF adds_trans[OF M1(2) M'(2)]])
      fix a b
      have "\<And>l'. (l \<le> l') = (l' = l \<or> l + 1 \<le> l')" by auto
      then show "(b = j \<and> (\<exists>k'. 0 \<le> k' \<and> k' < ?B \<and> a = x + l * gridSize s + k' * cellCount s)
           \<or> ?P (l + 1) a b) = ?P l a b"
        using True by auto
    qed
    ultimately show ?thesis by blast
  qed
qed

lemma constraint4_adds:
  assumes B: "0 < blockSize s" and N: "gridSize s = blockSize s * blockSize s"
    and cc: "cellCount s = gridSize s * gridSize s" and cols: "exactCoverCols s = 4 * cellCount s"
    and R: "R = gridSize s * gridSize s * gridSize s" and C: "C = 4 * cellCount s"
  shows "dims M R C \<Longrightarrow>
   (br < blockSize s \<and> bc < blockSize s \<and> v < gridSize s) \<or> (br = blockSize s \<and> bc = 0 \<and> v = 0) \<Longrightarrow>
   j = 3 * cellCount s + (br * blockSize s + bc) * gridSize s + v \<Longrightarrow>
   x = br * blockSize s * cellCount s + bc * blockSize s * gridSize s + v \<Longrightarrow>
   \<exists>M'. constraint4 s j x M = Some M' \<and>
        adds R C M M' (\<lambda>a b. j \<le> b \<and>
           b = 3 * cellCount s + ((a div cellCount s) div blockSize s * blockSize s
                 + (a div gridSize s mod gridSize s) div blockSize s) * gridSize s + a mod gridSize s)"
proof (induction "4 * cellCount s - j" arbitrary: j x br bc v M rule: less_induct)
  case less
  let ?B = "blockSize s" and ?N = "gridSize s" and ?cc = "cellCount s"
  let ?bcol = "\<lambda>a. 3 * ?cc + ((a div ?cc) div ?B * ?B + (a div ?N mod ?N) div ?B) * ?N + a mod ?N"
  let ?P = "\<lambda>j a b. j \<le> b \<and> b = ?bcol a"
  have N0: "0 < ?N" using B N by simp
  show ?case
  proof (cases "br = ?B")
    case True
    then have "j = 4 * ?cc" using less.prems(2,3) N cc by auto
    then have nj: "\<not> j < exactCoverCols s" "\<not> j < C" using cols C by simp_all
    have "constraint4 s j x M = Some M"
      using nj by (subst constraint4.simps) simp
    moreover have "adds R C M M (?P j)"
      using nj by (intro adds_cong[OF adds_refl[OF less.prems(1)]]) auto
    ultimately show ?thesis by blast
  next
    case False
    then have lt: "br < ?B" "bc < ?B" "v < ?N" using less.prems(2) by auto
    have q: "br * ?B + bc < ?N" using lt N pair_lt[of br ?B bc] by simp
    have "(br * ?B + bc) * ?N + v < ?N * ?N" by (rule pair_lt[OF q lt(3)])
    then have jlt: "j < 4 * ?cc" using less.prems(3) cc by simp
    then have jC: "j < C" "j < exactCoverCols s" using C cols by simp_all
    have rng: "\<forall>l'<?B. \<forall>k'<?B. x + l' * ?N + k' * ?cc < R"
    proof (intro allI impI)
      fix l' k' assume lk: "l' < ?B" "k' < ?B"
      have e: "x + l' * ?N + k' * ?cc = (br * ?B + k') * (?N * ?N) + (bc * ?B + l') * ?N + v"
        using less.prems(4) cc by (simp add: add_mult_distrib)
      have "br * ?B + k' < ?N" "bc * ?B + l' < ?N"
        using lt lk N pair_lt[of br ?B k'] pair_lt[of bc ?B l'] by simp_all
      then show "x + l' * ?N + k' * ?cc < R"
        unfolding e R using lt(3) by (intro triple_lt)
    qed
    obtain M1 where M1: "constraint4_l s x j 0 M = Some M1"
        "adds R C M M1 (\<lambda>a b. b = j \<and> (\<exists>l' k'. 0 \<le> l' \<and> l' < ?B \<and> k' < ?B \<and>
           a = x + l' * ?N + k' * ?cc))"
      using constraint4_l_adds[OF less.prems(1) jC(1) rng, of 0] by blast
    have d1: "dims M1 R C" using M1(2) by (rule adds_dims)
    have band: "\<And>a b. a < R \<Longrightarrow> (b = j \<and> (\<exists>l' k'. 0 \<le> l' \<and> l' < ?B \<and> k' < ?B \<and>
           a = x + l' * ?N + k' * ?cc)) = (b = j \<and> b = ?bcol a)"
    proof -
      fix a b assume a: "a < R"
      have "(\<exists>l' k'. 0 \<le> l' \<and> l' < ?B \<and> k' < ?B \<and> a = x + l' * ?N + k' * ?cc)
          = (\<exists>l'<?B. \<exists>k'<?B. a = br * ?B * (?N * ?N) + bc * ?B * ?N + v + l' * ?N + k' * (?N * ?N))"
        using less.prems(4) cc by auto
      also have "\<dots> = ((br * ?B + bc) * ?N + v
            = ((a div (?N * ?N)) div ?B * ?B + (a div ?N mod ?N) div ?B) * ?N + a mod ?N)"
        using a R by (intro block_band[OF B N lt]) simp
      also have "\<dots> = (j = ?bcol a)" using less.prems(3) cc by auto
      finally show "(b = j \<and> (\<exists>l' k'. 0 \<le> l' \<and> l' < ?B \<and> k' < ?B \<and>
           a = x + l' * ?N + k' * ?cc)) = (b = j \<and> b = ?bcol a)" by auto
    qed
    have temp: "j + 1 - 3 * ?cc = (br * ?B + bc) * ?N + v + 1" using less.prems(3) by simp
    have BN: "?B * ?N \<noteq> 0" using B N0 by simp
    have dec: "4 * ?cc - (j + 1) < 4 * ?cc - j" using jlt by simp
    have fin: "\<And>M'. adds R C M1 M' (?P (j + 1)) \<Longrightarrow> adds R C M M' (?P j)"
      by (rule adds_cong[OF adds_trans[OF M1(2)]], assumption)
         (use band in \<open>auto simp: Suc_le_eq le_eq_less_or_eq\<close>)
    consider (A) "v + 1 < ?N" | (Bc) "v + 1 = ?N" "bc + 1 < ?B" | (Cc) "v + 1 = ?N" "bc + 1 = ?B"
      using lt by linarith
    then show ?thesis
    proof cases
      case A
      have m1: "((br * ?B + bc) * ?N + v + 1) mod (?B * ?N) \<noteq> 0"
        and m2: "((br * ?B + bc) * ?N + v + 1) mod ?N \<noteq> 0"
        using tempA[OF A lt(2)] by simp_all
      have p2: "(br < ?B \<and> bc < ?B \<and> v + 1 < ?N) \<or> (br = ?B \<and> bc = 0 \<and> v + 1 = 0)"
        using lt A by simp
      have p3: "j + 1 = 3 * ?cc + (br * ?B + bc) * ?N + (v + 1)" using less.prems(3) by simp
      have p4: "x + 1 = br * ?B * ?cc + bc * ?B * ?N + (v + 1)" using less.prems(4) by simp
      obtain M' where M': "constraint4 s (j + 1) (x + 1) M1 = Some M'" "adds R C M1 M' (?P (j + 1))"
        using less.hyps[OF dec d1 p2 p3 p4] by blast
      have "constraint4 s j x M = Some M'"
        using jC(2) M1(1) m1 m2 M'(1) BN N0 temp
        by (subst constraint4.simps) (simp add: cmod_def Let_def)
      then show ?thesis using fin[OF M'(2)] by blast
    next
      case Bc
      have m1: "((br * ?B + bc) * ?N + v + 1) mod (?B * ?N) \<noteq> 0"
        and m2: "((br * ?B + bc) * ?N + v + 1) mod ?N = 0"
        using tempB[OF Bc] by simp_all
      have p2: "(br < ?B \<and> bc + 1 < ?B \<and> 0 < ?N) \<or> (br = ?B \<and> bc + 1 = 0 \<and> (0::nat) = 0)"
        using lt Bc N0 by simp
      have p3: "j + 1 = 3 * ?cc + (br * ?B + (bc + 1)) * ?N + 0"
        using less.prems(3) Bc(1) by (simp add: algebra_simps)
      have p4: "x + (?N * (?B - 1) + 1) = br * ?B * ?cc + (bc + 1) * ?B * ?N + 0"
        unfolding less.prems(4) by (rule xB[OF Bc(1) B])
      obtain M' where M': "constraint4 s (j + 1) (x + (?N * (?B - 1) + 1)) M1 = Some M'"
          "adds R C M1 M' (?P (j + 1))"
        using less.hyps[OF dec d1 p2 p3 p4] by blast
      have "constraint4 s j x M = Some M'"
        using jC(2) M1(1) m1 m2 M'(1) BN N0 temp
        by (subst constraint4.simps) (simp add: cmod_def Let_def)
      then show ?thesis using fin[OF M'(2)] by blast
    next
      case Cc
      have m1: "((br * ?B + bc) * ?N + v + 1) mod (?B * ?N) = 0"
        using tempC[OF Cc] by simp
      have p2: "(br + 1 < ?B \<and> 0 < ?B \<and> 0 < ?N) \<or> (br + 1 = ?B \<and> (0::nat) = 0 \<and> (0::nat) = 0)"
        using lt B N0 by auto
      have e1: "(br * ?B + bc) * ?N + v + 1 = (br * ?B + (bc + 1)) * ?N"
        using Cc(1) by (simp add: algebra_simps)
      have e2: "(br * ?B + (bc + 1)) * ?N = ((br + 1) * ?B + 0) * ?N"
        unfolding Cc(2) by (simp add: algebra_simps)
      have "j + 1 = 3 * ?cc + ((br * ?B + bc) * ?N + v + 1)" using less.prems(3) by simp
      also have "\<dots> = 3 * ?cc + (br * ?B + (bc + 1)) * ?N" by (simp only: e1)
      also have "\<dots> = 3 * ?cc + ((br + 1) * ?B + 0) * ?N" by (simp only: e2)
      finally have p3: "j + 1 = 3 * ?cc + ((br + 1) * ?B + 0) * ?N + 0" by simp
      have p4: "x + ((?B - 1) * ?cc + (?B - 1) * ?N + 1) = (br + 1) * ?B * ?cc + 0 * ?B * ?N + 0"
        unfolding less.prems(4) by (rule xC[OF Cc N cc])
      obtain M' where M': "constraint4 s (j + 1) (x + ((?B - 1) * ?cc + (?B - 1) * ?N + 1)) M1 = Some M'"
          "adds R C M1 M' (?P (j + 1))"
        using less.hyps[OF dec d1 p2 p3 p4] by blast
      have "constraint4 s j x M = Some M'"
        using jC(2) M1(1) m1 M'(1) BN N0 temp
        by (subst constraint4.simps) (simp add: cmod_def Let_def)
      then show ?thesis using fin[OF M'(2)] by blast
    qed
  qed
qed

lemma build_matrix_entries:
  assumes v: "valid_solver s"
  shows "\<exists>M. buildExactCoverMatrix s (replicate (exactCoverRows s) (replicate (exactCoverCols s) False)) = Some M
     \<and> dims M (exactCoverRows s) (exactCoverCols s)
     \<and> (\<forall>i<exactCoverRows s. \<forall>j<exactCoverCols s. M ! i ! j =
           (j = cellColumn (gridSize s) i \<or> j = rowColumn (gridSize s) i
            \<or> j = colColumn (gridSize s) i \<or> j = blockColumn (gridSize s) (blockSize s) i))"
proof -
  let ?N = "gridSize s" and ?B = "blockSize s" and ?cc = "cellCount s"
  let ?R = "exactCoverRows s" and ?C = "exactCoverCols s"
  let ?M0 = "replicate ?R (replicate ?C False)"
  have N: "?N = ?B * ?B" and cc: "?cc = ?N * ?N" and R: "?R = ?N * ?N * ?N" and C: "?C = 4 * ?cc"
    using v by (simp_all add: valid_solver_def)
  have d0: "dims ?M0 ?R ?C" by (simp add: dims_def)
  show ?thesis
  proof (cases "?N = 0")
    case True
    then have z: "?R = 0" "?C = 0" "?cc = 0" using R C cc by simp_all
    have "buildExactCoverMatrix s ?M0 = Some []"
      unfolding buildExactCoverMatrix_def z
      by (simp add: constraint1.simps[of s 0] constraint2.simps[of s 0] constraint3.simps[of s 0]
          constraint4.simps[of s 0] z)
    then show ?thesis using z by (simp add: dims_def)
  next
    case False
    then have N0: "0 < ?N" by simp
    then have B0: "0 < ?B" using N by (cases "?B = 0") simp_all
    have cc0: "0 < ?cc" using N0 cc by simp
    obtain M1 where M1: "constraint1 s 0 0 0 ?M0 = Some M1"
        "adds ?R ?C ?M0 M1 (\<lambda>a b. 0 \<le> a \<and> b = a div ?N)"
      using constraint1_adds[of s ?C ?M0 0 0 0] N0 R C cc d0 by auto
    have d1: "dims M1 ?R ?C" using M1(2) by (rule adds_dims)
    obtain M2 where M2: "constraint2 s ?cc 0 1 M1 = Some M2"
        "adds ?R ?C M1 M2 (\<lambda>a b. ?cc \<le> b \<and> b < 2 * ?cc \<and> b = ?cc + (a div ?cc) * ?N + a mod ?N)"
      using constraint2_adds[OF N0 cc R, of ?C M1 ?cc 0 1] C d1 by auto
    have d2: "dims M2 ?R ?C" using M2(2) by (rule adds_dims)
    obtain M3 where M3: "constraint3 s 0 (2 * ?cc) M2 = Some M3"
        "adds ?R ?C M2 M3 (\<lambda>a b. 0 \<le> a \<and> b = 2 * ?cc + a mod ?cc)"
      using constraint3_adds[of s ?C M2 "2 * ?cc" 0] cc0 C d2 by auto
    have d3: "dims M3 ?R ?C" using M3(2) by (rule adds_dims)
    obtain M4 where M4: "constraint4 s (3 * ?cc) 0 M3 = Some M4"
        "adds ?R ?C M3 M4 (\<lambda>a b. 3 * ?cc \<le> b \<and>
           b = 3 * ?cc + ((a div ?cc) div ?B * ?B + (a div ?N mod ?N) div ?B) * ?N + a mod ?N)"
      using constraint4_adds[OF B0 N cc C R C, of M3 0 0 0 "3 * ?cc" 0] d3 B0 N0 by auto
    have b: "buildExactCoverMatrix s ?M0 = Some M4"
      by (simp only: buildExactCoverMatrix_def M1(1) M2(1) M3(1) M4(1) option.case)
    have rowlt: "\<And>a. a < ?R \<Longrightarrow> (a div ?cc) * ?N + a mod ?N < ?cc"
    proof -
      fix a assume "a < ?R"
      then have "a div ?cc < ?N" using R cc by (simp add: dec_lt)
      then show "(a div ?cc) * ?N + a mod ?N < ?cc" unfolding cc using N0 by (intro pair_lt) simp_all
    qed
    have ent: "\<forall>i<?R. \<forall>j<?C. M4 ! i ! j =
           (j = cellColumn ?N i \<or> j = rowColumn ?N i \<or> j = colColumn ?N i \<or> j = blockColumn ?N ?B i)"
    proof (intro allI impI)
      fix i j assume ij: "i < ?R" "j < ?C"
      have m0: "?M0 ! i ! j = False" using ij by simp
      have m1: "M1 ! i ! j = (?M0 ! i ! j \<or> (0 \<le> i \<and> j = i div ?N))"
        using M1(2) ij unfolding adds_def by blast
      have m2: "M2 ! i ! j = (M1 ! i ! j \<or> (?cc \<le> j \<and> j < 2 * ?cc \<and> j = ?cc + (i div ?cc) * ?N + i mod ?N))"
        using M2(2) ij unfolding adds_def by blast
      have m3: "M3 ! i ! j = (M2 ! i ! j \<or> (0 \<le> i \<and> j = 2 * ?cc + i mod ?cc))"
        using M3(2) ij unfolding adds_def by blast
      have m4: "M4 ! i ! j = (M3 ! i ! j \<or> (3 * ?cc \<le> j \<and>
           j = 3 * ?cc + ((i div ?cc) div ?B * ?B + (i div ?N mod ?N) div ?B) * ?N + i mod ?N))"
        using M4(2) ij unfolding adds_def by blast
      have r: "(?cc \<le> j \<and> j < 2 * ?cc \<and> j = ?cc + (i div ?cc) * ?N + i mod ?N) = (j = rowColumn ?N i)"
        using rowlt[OF ij(1)] cc by (auto simp: rowColumn_def)
      have bl: "(3 * ?cc \<le> j \<and>
           j = 3 * ?cc + ((i div ?cc) div ?B * ?B + (i div ?N mod ?N) div ?B) * ?N + i mod ?N)
           = (j = blockColumn ?N ?B i)"
        using cc by (auto simp: blockColumn_def blockIndex_def)
      have c: "(j = 2 * ?cc + i mod ?cc) = (j = colColumn ?N i)"
        using cc by (simp add: colColumn_def)
      show "M4 ! i ! j =
           (j = cellColumn ?N i \<or> j = rowColumn ?N i \<or> j = colColumn ?N i \<or> j = blockColumn ?N ?B i)"
        unfolding m4 m3 m2 m1 m0 r bl c cellColumn_def by simp
    qed
    show ?thesis using b adds_dims[OF M4(2)] ent by blast
  qed
qed

lemma construct_fields:
  assumes "construct sz = Some (Inr s)"
  shows "0 \<le> sz" "sz \<le> 1290" "gridSize s = nat sz"
    "int (blockSize s) * int (blockSize s) = sz" "cellCount s = nat sz * nat sz"
    "exactCoverRows s = nat sz * (nat sz * nat sz)" "exactCoverCols s = 4 * (nat sz * nat sz)"
    "allNodes s = []" "solutionCount s = 0" "rootHeader s = None"
    "solution s = replicate (nat sz * nat sz) None" "fixedClues s = replicate (nat sz * nat sz) None"
proof -
  have r: "\<not> (sz < 0 \<or> 1290 < sz)" using assms by (auto simp: construct_eq)
  then show z: "0 \<le> sz" and "sz \<le> 1290" by simp_all
  let ?b = "\<lfloor>sqrt (real_of_int sz)\<rfloor>"
  have b: "?b * ?b = sz" using assms r by (auto simp: construct_eq split: if_splits)
  have b0: "0 \<le> ?b" using z by simp
  have s: "s = \<lparr>gridSize = nat sz, blockSize = nat ?b,
             cellCount = nat (sz * sz), exactCoverRows = nat (sz * (sz * sz)),
             exactCoverCols = nat (4 * (sz * sz)), rootHeader = None,
             solution = replicate (nat (sz * sz)) None, fixedClues = replicate (nat (sz * sz)) None,
             allNodes = [], solutionCount = 0\<rparr>"
    using assms r b by (simp add: construct_eq)
  have m: "nat (sz * sz) = nat sz * nat sz" using z by (simp add: nat_mult_distrib)
  have m3: "nat (sz * (sz * sz)) = nat sz * (nat sz * nat sz)" using z by (simp add: nat_mult_distrib)
  have m4: "nat (4 * (sz * sz)) = 4 * (nat sz * nat sz)" using z by (simp add: nat_mult_distrib)
  show "gridSize s = nat sz" "allNodes s = []" "solutionCount s = 0" "rootHeader s = None"
    by (simp_all add: s)
  show "int (blockSize s) * int (blockSize s) = sz" using b b0 by (simp add: s)
  show "cellCount s = nat sz * nat sz" by (simp add: s m)
  show "exactCoverRows s = nat sz * (nat sz * nat sz)" by (simp add: s m3)
  show "exactCoverCols s = 4 * (nat sz * nat sz)" by (simp add: s m4)
  show "solution s = replicate (nat sz * nat sz) None" "fixedClues s = replicate (nat sz * nat sz) None"
    by (simp_all add: s m)
qed

lemma construct_valid: "construct sz = Some (Inr s) \<Longrightarrow> valid_solver s"
proof -
  assume a: "construct sz = Some (Inr s)"
  note f = construct_fields[OF a]
  have "int (blockSize s * blockSize s) = int (gridSize s)" using f(1,3,4) by simp
  then have "blockSize s * blockSize s = gridSize s" by (simp only: of_nat_eq_iff)
  then show "valid_solver s" using f by (simp add: valid_solver_def)
qed

lemma construct_size_bound:
  assumes "construct sz = Some (Inr s)"
  shows "gridSize s * (gridSize s * gridSize s) \<le> 2147483647"
proof -
  note f = construct_fields[OF assms]
  have "sz * (sz * sz) \<le> 2147483647" using cube_fits[OF f(1)] f(2) by simp
  moreover have "int (gridSize s * (gridSize s * gridSize s)) = sz * (sz * sz)"
    using f(1,3) by simp
  ultimately have "int (gridSize s * (gridSize s * gridSize s)) \<le> 2147483647" by simp
  then show ?thesis by linarith
qed

lemma column_ranges:
  assumes B: "0 < B" and N: "N = B * B" and i: "i < N * N * N"
  shows "cellColumn N i < N * N"
    "N * N \<le> rowColumn N i" "rowColumn N i < 2 * (N * N)"
    "2 * (N * N) \<le> colColumn N i" "colColumn N i < 3 * (N * N)"
    "3 * (N * N) \<le> blockColumn N B i" "blockColumn N B i < 4 * (N * N)"
proof -
  have N0: "0 < N" using B N by simp
  show "cellColumn N i < N * N" using div_lt_cube[OF N0 i] by (simp add: cellColumn_def)
  have r: "i div (N * N) < N" using i by (rule dec_lt)
  have c: "i div N mod N < N" and v: "i mod N < N" using N0 by simp_all
  have "(i div (N * N)) * N + i mod N < N * N" by (rule pair_lt[OF r v])
  then show "N * N \<le> rowColumn N i" "rowColumn N i < 2 * (N * N)" by (simp_all add: rowColumn_def)
  have "i mod (N * N) < N * N" using N0 by simp
  then show "2 * (N * N) \<le> colColumn N i" "colColumn N i < 3 * (N * N)" by (simp_all add: colColumn_def)
  have "i div (N * N) div B < B" "i div N mod N div B < B"
    using r c N by (simp_all add: less_mult_imp_div_less)
  then have "blockIndex B (i div (N * N)) (i div N mod N) < N"
    unfolding blockIndex_def N by (rule pair_lt)
  then have "blockIndex B (i div (N * N)) (i div N mod N) * N + i mod N < N * N"
    using v by (rule pair_lt)
  then show "3 * (N * N) \<le> blockColumn N B i" "blockColumn N B i < 4 * (N * N)"
    by (simp_all add: blockColumn_def)
qed

lemma column_count:
  assumes B: "0 < B" and N: "N = B * B" and j: "j < 4 * (N * N)"
  shows "card {i. i < N * N * N \<and> (j = cellColumn N i \<or> j = rowColumn N i
            \<or> j = colColumn N i \<or> j = blockColumn N B i)} = N"
proof -
  have N0: "0 < N" using B N by simp
  note rg = column_ranges[OF B N]
  consider (c1) "j < N * N" | (c2) "N * N \<le> j" "j < 2 * (N * N)"
    | (c3) "2 * (N * N) \<le> j" "j < 3 * (N * N)" | (c4) "3 * (N * N) \<le> j"
    by linarith
  then show ?thesis
  proof cases
    case c1
    have "\<And>i. i < N * N * N \<Longrightarrow> (j = cellColumn N i \<or> j = rowColumn N i
            \<or> j = colColumn N i \<or> j = blockColumn N B i) = (i div N = j)"
    proof -
      fix i assume i: "i < N * N * N"
      show "(j = cellColumn N i \<or> j = rowColumn N i
            \<or> j = colColumn N i \<or> j = blockColumn N B i) = (i div N = j)"
        using c1 rg(2,4,6)[OF i] by (auto simp: cellColumn_def)
    qed
    then have "{i. i < N * N * N \<and> (j = cellColumn N i \<or> j = rowColumn N i
            \<or> j = colColumn N i \<or> j = blockColumn N B i)} = {i. i < N * N * N \<and> i div N = j}"
      by blast
    then show ?thesis using card_cell[OF N0 c1] by simp
  next
    case c2
    define t where "t = j - N * N"
    have t: "t < N * N" "j = N * N + t" using c2 by (simp_all add: t_def)
    have q: "t div N < N" using t(1) by (simp add: less_mult_imp_div_less)
    have v: "t mod N < N" using N0 by simp
    have "\<And>i. i < N * N * N \<Longrightarrow> (j = cellColumn N i \<or> j = rowColumn N i
            \<or> j = colColumn N i \<or> j = blockColumn N B i) = (i div (N * N) = t div N \<and> i mod N = t mod N)"
    proof -
      fix i assume i: "i < N * N * N"
      have "(j = rowColumn N i) = ((t div N) * N + t mod N = (i div (N * N)) * N + i mod N)"
        using t(2) by (auto simp: rowColumn_def)
      also have "\<dots> = (t div N = i div (N * N) \<and> t mod N = i mod N)"
        using N0 by (intro divmod_unique[OF v]) simp
      finally have "(j = rowColumn N i) = (i div (N * N) = t div N \<and> i mod N = t mod N)" by auto
      moreover have "j \<noteq> cellColumn N i" "j \<noteq> colColumn N i" "j \<noteq> blockColumn N B i"
        using c2 rg(1,4,6)[OF i] by simp_all
      ultimately show "(j = cellColumn N i \<or> j = rowColumn N i
            \<or> j = colColumn N i \<or> j = blockColumn N B i) = (i div (N * N) = t div N \<and> i mod N = t mod N)"
        by simp
    qed
    then have "{i. i < N * N * N \<and> (j = cellColumn N i \<or> j = rowColumn N i
            \<or> j = colColumn N i \<or> j = blockColumn N B i)}
        = {i. i < N * N * N \<and> i div (N * N) = t div N \<and> i mod N = t mod N}"
      by blast
    then show ?thesis using card_row[OF N0 q v] by simp
  next
    case c3
    define m where "m = j - 2 * (N * N)"
    have m: "m < N * N" "j = 2 * (N * N) + m" using c3 by (simp_all add: m_def)
    have "\<And>i. i < N * N * N \<Longrightarrow> (j = cellColumn N i \<or> j = rowColumn N i
            \<or> j = colColumn N i \<or> j = blockColumn N B i) = (i mod (N * N) = m)"
    proof -
      fix i assume i: "i < N * N * N"
      have "(j = colColumn N i) = (i mod (N * N) = m)" using m(2) by (auto simp: colColumn_def)
      moreover have "j \<noteq> cellColumn N i" "j \<noteq> rowColumn N i" "j \<noteq> blockColumn N B i"
        using c3 rg(1,3,6)[OF i] by simp_all
      ultimately show "(j = cellColumn N i \<or> j = rowColumn N i
            \<or> j = colColumn N i \<or> j = blockColumn N B i) = (i mod (N * N) = m)"
        by simp
    qed
    then have "{i. i < N * N * N \<and> (j = cellColumn N i \<or> j = rowColumn N i
            \<or> j = colColumn N i \<or> j = blockColumn N B i)}
        = {i. i < N * N * N \<and> i mod (N * N) = m}"
      by blast
    then show ?thesis using card_col[OF N0 m(1)] by simp
  next
    case c4
    define t where "t = j - 3 * (N * N)"
    have t: "t < N * N" "j = 3 * (N * N) + t" using c4 j by (simp_all add: t_def)
    define q where "q = t div N"
    have q: "q < B * B" using t(1) N by (simp add: q_def less_mult_imp_div_less)
    have v: "t mod N < N" using N0 by simp
    have br: "q div B < B" using q by (simp add: less_mult_imp_div_less)
    have bc: "q mod B < B" using B by simp
    have tq: "t = (q div B * B + q mod B) * N + t mod N" by (simp add: q_def)
    have "\<And>i. i < N * N * N \<Longrightarrow> (j = cellColumn N i \<or> j = rowColumn N i
            \<or> j = colColumn N i \<or> j = blockColumn N B i) = ((q div B * B + q mod B) * N + t mod N
            = ((i div (N * N)) div B * B + (i div N mod N) div B) * N + i mod N)"
    proof -
      fix i assume i: "i < N * N * N"
      have "(j = blockColumn N B i) = (t = ((i div (N * N)) div B * B + (i div N mod N) div B) * N + i mod N)"
        using t(2) by (auto simp: blockColumn_def blockIndex_def)
      also have "\<dots> = ((q div B * B + q mod B) * N + t mod N
            = ((i div (N * N)) div B * B + (i div N mod N) div B) * N + i mod N)"
        using tq by simp
      finally have "(j = blockColumn N B i) = ((q div B * B + q mod B) * N + t mod N
            = ((i div (N * N)) div B * B + (i div N mod N) div B) * N + i mod N)" .
      moreover have "j \<noteq> cellColumn N i" "j \<noteq> rowColumn N i" "j \<noteq> colColumn N i"
        using c4 rg(1,3,5)[OF i] by simp_all
      ultimately show "(j = cellColumn N i \<or> j = rowColumn N i
            \<or> j = colColumn N i \<or> j = blockColumn N B i) = ((q div B * B + q mod B) * N + t mod N
            = ((i div (N * N)) div B * B + (i div N mod N) div B) * N + i mod N)"
        by simp
    qed
    then have "{i. i < N * N * N \<and> (j = cellColumn N i \<or> j = rowColumn N i
            \<or> j = colColumn N i \<or> j = blockColumn N B i)}
        = {i. i < N * N * N \<and> (q div B * B + q mod B) * N + t mod N
            = ((i div (N * N)) div B * B + (i div N mod N) div B) * N + i mod N}"
      by blast
    then show ?thesis using card_block[OF B N br bc v] by simp
  qed
qed

text \<open>
  Claim C2 speaks of every grid size \<open>N = k\<^sup>2\<close>. The number of rows \<open>N \<times> N\<^sup>2\<close> is the
  \<^verbatim>\<open>int\<close> member \<^verbatim>\<open>exactCoverRows\<close>: for \<open>N = 1296 = 36\<^sup>2\<close> it does not fit an
  \<^verbatim>\<open>int\<close>, the constructor overflows, and there is no solver to build the matrix with.
\<close>

theorem exact_cover_matrix_overflow:
  "(1296::int) = 36 * 36 \<and> INT_MAX < 1296 * (1296 * 1296) \<and> construct 1296 = None"
  by (simp add: construct_eq INT_MAX_def)

text \<open>
  Claim C2, amended. For every solver that \<open>construct\<close> returns (grid size \<open>N = k\<^sup>2\<close> with
  \<open>N\<^sup>3\<close> in the range of \<^verbatim>\<open>int\<close>, that is \<open>N \<le> 1290\<close>),
  \<open>buildExactCoverMatrix\<close>, run on the all-false matrix that \<open>solve\<close> allocates, returns a
  matrix with \<open>N \<times> N\<^sup>2\<close> rows and \<open>4 \<times> N\<^sup>2\<close> columns. The true entries
  of row \<open>i\<close> are exactly its four columns \<open>cellColumn\<close>, \<open>rowColumn\<close>, \<open>colColumn\<close> and
  \<open>blockColumn\<close>, one in each of the four contiguous blocks of \<open>N\<^sup>2\<close> columns, the block
  column being \<open>3N\<^sup>2 + b(r,c) \<times> N + digit\<close> with
  \<open>b(r,c) = (r div blockSize) \<times> blockSize + c div blockSize\<close>; every column has exactly
  \<open>N\<close> true entries.
\<close>

theorem exact_cover_matrix_shape:
  assumes "construct sz = Some (Inr s)"
  shows "gridSize s * (gridSize s * gridSize s) \<le> 2147483647 \<and>
    (\<exists>M. buildExactCoverMatrix s (replicate (exactCoverRows s) (replicate (exactCoverCols s) False)) = Some M
     \<and> length M = gridSize s * (gridSize s * gridSize s)
     \<and> (\<forall>row\<in>set M. length row = 4 * (gridSize s * gridSize s))
     \<and> (\<forall>i<length M.
           {j. j < 4 * (gridSize s * gridSize s) \<and> M ! i ! j}
             = {cellColumn (gridSize s) i, rowColumn (gridSize s) i, colColumn (gridSize s) i,
                blockColumn (gridSize s) (blockSize s) i}
         \<and> card {j. j < 4 * (gridSize s * gridSize s) \<and> M ! i ! j} = 4
         \<and> cellColumn (gridSize s) i < gridSize s * gridSize s
         \<and> gridSize s * gridSize s \<le> rowColumn (gridSize s) i
         \<and> rowColumn (gridSize s) i < 2 * (gridSize s * gridSize s)
         \<and> 2 * (gridSize s * gridSize s) \<le> colColumn (gridSize s) i
         \<and> colColumn (gridSize s) i < 3 * (gridSize s * gridSize s)
         \<and> 3 * (gridSize s * gridSize s) \<le> blockColumn (gridSize s) (blockSize s) i
         \<and> blockColumn (gridSize s) (blockSize s) i < 4 * (gridSize s * gridSize s))
     \<and> (\<forall>j<4 * (gridSize s * gridSize s). card {i. i < length M \<and> M ! i ! j} = gridSize s))"
proof -
  let ?N = "gridSize s" and ?B = "blockSize s"
  have v: "valid_solver s" using assms by (rule construct_valid)
  then have N: "?N = ?B * ?B" and R: "exactCoverRows s = ?N * ?N * ?N"
      and C: "exactCoverCols s = 4 * (?N * ?N)"
    by (simp_all add: valid_solver_def)
  obtain M where M: "buildExactCoverMatrix s (replicate (exactCoverRows s) (replicate (exactCoverCols s) False)) = Some M"
      and d: "dims M (?N * ?N * ?N) (4 * (?N * ?N))"
      and ent: "\<And>i j. i < ?N * ?N * ?N \<Longrightarrow> j < 4 * (?N * ?N) \<Longrightarrow> M ! i ! j =
           (j = cellColumn ?N i \<or> j = rowColumn ?N i \<or> j = colColumn ?N i \<or> j = blockColumn ?N ?B i)"
    using build_matrix_entries[OF v] unfolding R C by blast
  have len: "length M = ?N * (?N * ?N)" and rows: "\<forall>row\<in>set M. length row = 4 * (?N * ?N)"
    using d by (simp_all add: dims_def mult.assoc)
  have rowp: "\<forall>i<length M.
           {j. j < 4 * (?N * ?N) \<and> M ! i ! j}
             = {cellColumn ?N i, rowColumn ?N i, colColumn ?N i, blockColumn ?N ?B i}
         \<and> card {j. j < 4 * (?N * ?N) \<and> M ! i ! j} = 4
         \<and> cellColumn ?N i < ?N * ?N
         \<and> ?N * ?N \<le> rowColumn ?N i \<and> rowColumn ?N i < 2 * (?N * ?N)
         \<and> 2 * (?N * ?N) \<le> colColumn ?N i \<and> colColumn ?N i < 3 * (?N * ?N)
         \<and> 3 * (?N * ?N) \<le> blockColumn ?N ?B i \<and> blockColumn ?N ?B i < 4 * (?N * ?N)"
  proof (intro allI impI)
    fix i assume "i < length M"
    then have i: "i < ?N * ?N * ?N" using len by (simp add: mult.assoc)
    then have B0: "0 < ?B" using N by (cases "?B = 0") simp_all
    note rg = column_ranges[OF B0 N i]
    have s: "{j. j < 4 * (?N * ?N) \<and> M ! i ! j}
        = {cellColumn ?N i, rowColumn ?N i, colColumn ?N i, blockColumn ?N ?B i}"
      using ent[OF i] rg by auto
    have "card {cellColumn ?N i, rowColumn ?N i, colColumn ?N i, blockColumn ?N ?B i} = 4"
      using rg by simp
    then show "{j. j < 4 * (?N * ?N) \<and> M ! i ! j}
             = {cellColumn ?N i, rowColumn ?N i, colColumn ?N i, blockColumn ?N ?B i}
         \<and> card {j. j < 4 * (?N * ?N) \<and> M ! i ! j} = 4
         \<and> cellColumn ?N i < ?N * ?N
         \<and> ?N * ?N \<le> rowColumn ?N i \<and> rowColumn ?N i < 2 * (?N * ?N)
         \<and> 2 * (?N * ?N) \<le> colColumn ?N i \<and> colColumn ?N i < 3 * (?N * ?N)
         \<and> 3 * (?N * ?N) \<le> blockColumn ?N ?B i \<and> blockColumn ?N ?B i < 4 * (?N * ?N)"
      using s rg by simp
  qed
  have colp: "\<forall>j<4 * (?N * ?N). card {i. i < length M \<and> M ! i ! j} = ?N"
  proof (intro allI impI)
    fix j assume j: "j < 4 * (?N * ?N)"
    then have B0: "0 < ?B" using N by (cases "?B = 0") simp_all
    have "{i. i < length M \<and> M ! i ! j} = {i. i < ?N * ?N * ?N \<and> (j = cellColumn ?N i \<or> j = rowColumn ?N i
            \<or> j = colColumn ?N i \<or> j = blockColumn ?N ?B i)}"
      using ent j len by (auto simp: mult.assoc)
    then show "card {i. i < length M \<and> M ! i ! j} = ?N"
      using column_count[OF B0 N j] by simp
  qed
  show ?thesis using construct_size_bound[OF assms] M len rows rowp colp by blast
qed

theorem exact_cover_matrix_shape_witness:
  "\<exists>M. buildExactCoverMatrix solver4 (replicate 64 (replicate 64 False)) = Some M
     \<and> length M = 64 \<and> card {j. j < 64 \<and> M ! 5 ! j} = 4 \<and> card {i. i < 64 \<and> M ! i ! 63} = 4"
proof -
  have g: "gridSize solver4 = 4" "exactCoverRows solver4 = 64" "exactCoverCols solver4 = 64"
    by (simp_all add: solver4_def)
  obtain M where M: "buildExactCoverMatrix solver4
        (replicate (exactCoverRows solver4) (replicate (exactCoverCols solver4) False)) = Some M"
      and len: "length M = gridSize solver4 * (gridSize solver4 * gridSize solver4)"
      and r: "\<forall>i<length M.
           {j. j < 4 * (gridSize solver4 * gridSize solver4) \<and> M ! i ! j}
             = {cellColumn (gridSize solver4) i, rowColumn (gridSize solver4) i,
                colColumn (gridSize solver4) i, blockColumn (gridSize solver4) (blockSize solver4) i}
         \<and> card {j. j < 4 * (gridSize solver4 * gridSize solver4) \<and> M ! i ! j} = 4
         \<and> cellColumn (gridSize solver4) i < gridSize solver4 * gridSize solver4
         \<and> gridSize solver4 * gridSize solver4 \<le> rowColumn (gridSize solver4) i
         \<and> rowColumn (gridSize solver4) i < 2 * (gridSize solver4 * gridSize solver4)
         \<and> 2 * (gridSize solver4 * gridSize solver4) \<le> colColumn (gridSize solver4) i
         \<and> colColumn (gridSize solver4) i < 3 * (gridSize solver4 * gridSize solver4)
         \<and> 3 * (gridSize solver4 * gridSize solver4) \<le> blockColumn (gridSize solver4) (blockSize solver4) i
         \<and> blockColumn (gridSize solver4) (blockSize solver4) i < 4 * (gridSize solver4 * gridSize solver4)"
      and c: "\<forall>j<4 * (gridSize solver4 * gridSize solver4).
           card {i. i < length M \<and> M ! i ! j} = gridSize solver4"
    using exact_cover_matrix_shape[OF construct_4] by blast
  have len64: "length M = 64" using len by (simp add: g)
  have "5 < length M" using len64 by simp
  then have "card {j. j < 4 * (gridSize solver4 * gridSize solver4) \<and> M ! 5 ! j} = 4"
    using r by blast
  then have r5: "card {j. j < 64 \<and> M ! 5 ! j} = 4" by (simp add: g)
  have "63 < 4 * (gridSize solver4 * gridSize solver4)" by (simp add: g)
  then have "card {i. i < length M \<and> M ! i ! 63} = gridSize solver4"
    using c by blast
  then have c63: "card {i. i < 64 \<and> M ! i ! 63} = 4" by (simp add: g len64)
  show ?thesis using M r5 c63 len64 unfolding g by blast
qed

section \<open>The torus built by buildDLXLinkedList\<close>

lemma fld_Some [simp]: "a < length h \<Longrightarrow> fld f h (Some a) = Some (f (h ! a))"
  by (simp add: fld_def)

lemma assign_Some [simp]: "a < length h \<Longrightarrow> assign h (Some a) g = Some (h[a := g (h ! a)])"
  by (simp add: assign_def)

lemma map_upd_id: "(map f h)[a := f (h ! a)] = map f h"
  by (cases "a < length h") (simp_all add: list_update_same_conv list_update_beyond not_less)

lemma map_upd_id2: "b \<noteq> a \<Longrightarrow> (map f h)[a := v, b := f (h ! b)] = (map f h)[a := v]"
  by (cases "b < length h") (simp_all add: list_update_same_conv list_update_beyond not_less)

lemma map_upd_id3:
  "c \<noteq> a \<Longrightarrow> c \<noteq> b \<Longrightarrow> (map f h)[a := v, b := w, c := f (h ! c)] = (map f h)[a := v, b := w]"
  by (cases "c < length h") (simp_all add: list_update_same_conv list_update_beyond not_less)

lemmas upd_id2 [simp] = map_upd_id2[of _ _ left] map_upd_id2[of _ _ right] map_upd_id2[of _ _ up]
  map_upd_id2[of _ _ down] map_upd_id2[of _ _ column] map_upd_id2[of _ _ columnSize]
  map_upd_id2[of _ _ rowData]

lemmas upd_id3 [simp] = map_upd_id3[of _ _ _ left] map_upd_id3[of _ _ _ right] map_upd_id3[of _ _ _ up]
  map_upd_id3[of _ _ _ down] map_upd_id3[of _ _ _ column] map_upd_id3[of _ _ _ columnSize]
  map_upd_id3[of _ _ _ rowData]

lemmas upd_id [simp] = map_upd_id[of left] map_upd_id[of right] map_upd_id[of up] map_upd_id[of down]
  map_upd_id[of column] map_upd_id[of columnSize] map_upd_id[of rowData]

lemma addNode_effect_first:
  assumes tn: "t < length h" and u: "up (h ! t) = Some u" "u < length h"
    and d: "down (h ! t) = Some d"
  shows "\<exists>h'. addNode ident (Some t) None h = Some (h', Some (length h))
     \<and> node_added h h' (length h) (length h) t u d ident"
  using assms
  by (simp add: addNode_def alloc_def new_DLXNode_def node_added_def nth_list_update nth_append
        map_update list_update_append list_update_swap[of t u])

lemma addNode_effect_next:
  assumes tn: "t < length h" and u: "up (h ! t) = Some u" "u < length h"
    and d: "down (h ! t) = Some d"
    and p: "p < length h" and r: "right (h ! p) = Some r" "r < length h"
    and x: "p \<noteq> t" "r \<noteq> t" "p \<noteq> u" "r \<noteq> u"
  shows "\<exists>h'. addNode ident (Some t) (Some p) h = Some (h', Some (length h))
     \<and> node_added h h' p r t u d ident"
  using assms
  by (simp add: addNode_def alloc_def new_DLXNode_def node_added_def nth_list_update nth_append
        map_update list_update_append list_update_swap[of t u])

lemma node_added_nth:
  assumes "node_added h h' p r t u d ident" and k: "k \<le> length h"
  shows "left (h' ! k) = ((map left h @ [Some p])[r := Some (length h)]) ! k"
    "right (h' ! k) = ((map right h @ [Some r])[p := Some (length h)]) ! k"
    "up (h' ! k) = ((map up h @ [Some u])[t := Some (length h)]) ! k"
    "down (h' ! k) = ((map down h @ [Some t])[u := Some (length h),
            t := (if u = t \<or> d = t then Some (length h) else Some d)]) ! k"
    "column (h' ! k) = (map column h @ [Some t]) ! k"
    "rowData (h' ! k) = (map rowData h @ [[ident ! 0, ident ! 1, ident ! 2]]) ! k"
    "columnSize (h' ! k) = ((map columnSize h @ [0])[t := columnSize (h ! t) + 1]) ! k"
    "length h' = length h + 1"
proof -
  have "length (map column h') = length (map column h @ [Some t])"
    using assms(1) by (simp add: node_added_def)
  then have len: "length h' = length h + 1" by simp
  then have kl: "k < length h'" using k by simp
  show "length h' = length h + 1" by (rule len)
  show "left (h' ! k) = ((map left h @ [Some p])[r := Some (length h)]) ! k"
    using assms(1) nth_map[OF kl, of left] by (simp add: node_added_def)
  show "right (h' ! k) = ((map right h @ [Some r])[p := Some (length h)]) ! k"
    using assms(1) nth_map[OF kl, of right] by (simp add: node_added_def)
  show "up (h' ! k) = ((map up h @ [Some u])[t := Some (length h)]) ! k"
    using assms(1) nth_map[OF kl, of up] by (simp add: node_added_def)
  show "down (h' ! k) = ((map down h @ [Some t])[u := Some (length h),
            t := (if u = t \<or> d = t then Some (length h) else Some d)]) ! k"
    using assms(1) nth_map[OF kl, of down] by (simp add: node_added_def)
  show "column (h' ! k) = (map column h @ [Some t]) ! k"
    using assms(1) nth_map[OF kl, of column] by (simp add: node_added_def)
  show "rowData (h' ! k) = (map rowData h @ [[ident ! 0, ident ! 1, ident ! 2]]) ! k"
    using assms(1) nth_map[OF kl, of rowData] by (simp add: node_added_def)
  show "columnSize (h' ! k) = ((map columnSize h @ [0])[t := columnSize (h ! t) + 1]) ! k"
    using assms(1) nth_map[OF kl, of columnSize] by (simp add: node_added_def)
qed

lemma nth_upd: "xs[i := x] ! j = (if i = j \<and> i < length xs then x else xs ! j)"
  by (cases "i < length xs") (simp_all add: nth_list_update list_update_beyond not_less)

lemma node_added_J:
  assumes A: "node_added h h' p r t u d ident"
    and H: "hdrs_ok C h" and Rw: "rows_ok C h" and t: "1 \<le> t" "t \<le> C"
    and u: "up (h ! t) = Some u" and d: "down (h ! t) = Some d"
    and p: "C < p" "p \<le> length h" and r: "C < r" "r \<le> length h"
    and pr: "p = length h \<longrightarrow> r = length h"
  shows "hdrs_ok C h'" "rows_ok C h'"
    "\<forall>n<length h. rowData (h' ! n) = rowData (h ! n) \<and> column (h' ! n) = column (h ! n)"
    "rowData (h' ! length h) = [ident ! 0, ident ! 1, ident ! 2]"
    "column (h' ! length h) = Some t" "right (h' ! length h) = Some r"
    "right (h' ! t) = right (h ! t)"
proof -
  let ?n = "length h"
  note nth = node_added_nth(1-7)[OF A]
  have len: "length h' = length h + 1" using node_added_nth(8)[OF A le_refl] .
  have Cn: "C < ?n" using H by (simp add: hdrs_ok_def)
  have uu: "u = t \<or> (C < u \<and> u < ?n \<and> column (h ! u) = Some t)"
    using H t u by (auto simp: hdrs_ok_def)
  have dd: "d = t \<or> (C < d \<and> d < ?n \<and> column (h ! d) = Some t)"
    using H t d by (auto simp: hdrs_ok_def)
  have colh': "\<And>m. m \<le> ?n \<Longrightarrow> column (h' ! m) = (if m = ?n then Some t else column (h ! m))"
    by (simp add: nth nth_append)
  show "hdrs_ok C h'"
    unfolding hdrs_ok_def
  proof (intro conjI allI impI)
    show "C < length h'" using len Cn by simp
    have z: "0 \<noteq> r" "0 \<noteq> p" "0 \<noteq> t" "0 \<noteq> u" "0 < ?n" using t p r uu Cn by auto
    show "left (h' ! 0) = Some 0" using H z by (simp add: nth hdrs_ok_def nth_upd nth_append)
    show "right (h' ! 0) = Some (if C = 0 then 0 else 1)"
      using H z by (simp add: nth hdrs_ok_def nth_upd nth_append)
    show "up (h' ! 0) = Some 0" using H z by (simp add: nth hdrs_ok_def nth_upd nth_append)
    show "down (h' ! 0) = Some 0" using H z by (simp add: nth hdrs_ok_def nth_upd nth_append)
    show "column (h' ! 0) = Some 0" using H z by (simp add: nth hdrs_ok_def nth_upd nth_append)
    show "columnSize (h' ! 0) = - 1" using H z by (simp add: nth hdrs_ok_def nth_upd nth_append)
  next
    fix k assume k: "1 \<le> k \<and> k \<le> C"
    then have kn: "k < ?n" "k \<le> ?n" using Cn by simp_all
    have hk: "left (h ! k) = Some (k - 1)" "right (h ! k) = Some (if k = C then 0 else k + 1)"
      "column (h ! k) = Some k"
      using H k by (auto simp: hdrs_ok_def)
    obtain uk where uk: "up (h ! k) = Some uk" "uk = k \<or> (C < uk \<and> uk < ?n \<and> column (h ! uk) = Some k)"
      using H k unfolding hdrs_ok_def by blast
    obtain dk where dk: "down (h ! k) = Some dk" "dk = k \<or> (C < dk \<and> dk < ?n \<and> column (h ! dk) = Some k)"
      using H k unfolding hdrs_ok_def by blast
    have kne: "k \<noteq> r" "k \<noteq> p" using k p r by simp_all
    show "left (h' ! k) = Some (k - 1)" using hk kn kne by (simp add: nth nth_upd nth_append)
    show "right (h' ! k) = Some (if k = C then 0 else k + 1)"
      using hk kn kne by (simp add: nth nth_upd nth_append)
    show "column (h' ! k) = Some k" using hk kn by (simp add: nth nth_append)
    show "\<exists>u. up (h' ! k) = Some u \<and> (u = k \<or> (C < u \<and> u < length h' \<and> column (h' ! u) = Some k))"
    proof (cases "k = t")
      case True
      then have "up (h' ! k) = Some ?n" using kn by (simp add: nth nth_upd nth_append)
      then show ?thesis using Cn True colh'[of ?n] len by simp
    next
      case False
      then have "up (h' ! k) = Some uk" using kn uk by (simp add: nth nth_upd nth_append)
      then show ?thesis using uk(2) colh'[of uk] len by auto
    qed
    show "\<exists>d. down (h' ! k) = Some d \<and> (d = k \<or> (C < d \<and> d < length h' \<and> column (h' ! d) = Some k))"
    proof (cases "k = t")
      case True
      show ?thesis
      proof (cases "u = t \<or> d = t")
        case True
        then have "down (h' ! t) = Some ?n" using kn \<open>k = t\<close> by (auto simp: nth nth_upd nth_append)
        then show ?thesis using Cn \<open>k = t\<close> colh'[of ?n] len by simp
      next
        case False
        then have "down (h' ! t) = Some d" using kn \<open>k = t\<close> by (auto simp: nth nth_upd nth_append)
        then show ?thesis using False dd \<open>k = t\<close> colh'[of d] len by auto
      qed
    next
      case False
      then have "k \<noteq> u" using uu k hk(3) by auto
      then have "down (h' ! k) = Some dk" using kn dk False by (simp add: nth nth_upd nth_append)
      then show ?thesis using dk(2) colh'[of dk] len by auto
    qed
  qed
  show "rows_ok C h'"
    unfolding rows_ok_def
  proof (intro allI impI)
    fix n assume n: "C < n \<and> n < length h'"
    then have nn: "n \<le> ?n" using len by simp
    show "\<exists>l r u d c. left (h' ! n) = Some l \<and> C < l \<and> l < length h'
        \<and> right (h' ! n) = Some r \<and> C < r \<and> r < length h'
        \<and> up (h' ! n) = Some u \<and> 1 \<le> u \<and> u < length h'
        \<and> down (h' ! n) = Some d \<and> 1 \<le> d \<and> d < length h'
        \<and> column (h' ! n) = Some c \<and> 1 \<le> c \<and> c \<le> C"
    proof (cases "n = ?n")
      case True
      have "u \<ge> 1" "u < ?n" "?n \<noteq> t" using uu t Cn by auto
      then show ?thesis using True t p r Cn len
        by (simp add: nth nth_upd nth_append)
    next
      case False
      then have nl: "n < ?n" using nn by simp
      obtain l0 r0 u0 d0 c0 where o: "left (h ! n) = Some l0" "C < l0" "l0 < ?n"
        "right (h ! n) = Some r0" "C < r0" "r0 < ?n" "up (h ! n) = Some u0" "1 \<le> u0" "u0 < ?n"
        "down (h ! n) = Some d0" "1 \<le> d0" "d0 < ?n" "column (h ! n) = Some c0" "1 \<le> c0" "c0 \<le> C"
        using Rw n nl unfolding rows_ok_def by blast
      have "n \<noteq> t" using n t by simp
      then show ?thesis using o nl n Cn len p r uu
        by (simp add: nth nth_upd nth_append)
    qed
  qed
  show "\<forall>n<length h. rowData (h' ! n) = rowData (h ! n) \<and> column (h' ! n) = column (h ! n)"
    by (simp add: nth nth_append)
  show "rowData (h' ! length h) = [ident ! 0, ident ! 1, ident ! 2]"
    "column (h' ! length h) = Some t"
    by (simp_all add: nth nth_append)
  show "right (h' ! length h) = Some r" using p pr by (simp add: nth nth_upd nth_append)
  show "right (h' ! t) = right (h ! t)" using t p Cn by (simp add: nth nth_upd nth_append)
qed

lemma columnNodes_ok:
  assumes "hdrs_ok i h" "length h = i + 1" "i \<le> exactCoverCols s"
  shows "\<exists>h'. columnNodes s i (Some 0) (Some i) h = Some h' \<and> hdrs_ok (exactCoverCols s) h'
            \<and> length h' = exactCoverCols s + 1"
  using assms
proof (induction "exactCoverCols s - i" arbitrary: i h)
  case 0
  then have "i = exactCoverCols s" by simp
  then show ?case using 0 by (simp add: columnNodes.simps[of s "exactCoverCols s"])
next
  case (Suc m)
  then have lt: "i < exactCoverCols s" by simp
  let ?n = "length h"
  define h7 where "h7 = (h @ [new_DLXNode\<lparr>columnSize := 0, up := Some ?n, down := Some ?n,
      column := Some ?n, right := Some 0, left := Some i\<rparr>])[i := (h ! i)\<lparr>right := Some ?n\<rparr>]"
  have len: "?n = i + 1" using Suc.prems by simp
  have step: "columnNodes s i (Some 0) (Some i) h = columnNodes s (i + 1) (Some 0) (Some (i + 1)) h7"
    using lt len
    by (subst columnNodes.simps)
       (simp add: alloc_def h7_def nth_append list_update_append new_DLXNode_def)
  have l7: "length h7 = (i + 1) + 1" using len by (simp add: h7_def)
  have H: "hdrs_ok i h" using Suc.prems by simp
  have h0: "h7 ! 0 = (if i = 0 then (h ! 0)\<lparr>right := Some 1\<rparr> else h ! 0)"
    using len by (simp add: h7_def nth_upd nth_append)
  have hk: "\<And>k. 1 \<le> k \<Longrightarrow> k < i \<Longrightarrow> h7 ! k = h ! k"
    using len by (simp add: h7_def nth_upd nth_append)
  have hi: "1 \<le> i \<Longrightarrow> h7 ! i = (h ! i)\<lparr>right := Some (i + 1)\<rparr>"
    using len by (simp add: h7_def nth_upd nth_append)
  have hn: "h7 ! (i + 1) = new_DLXNode\<lparr>columnSize := 0, up := Some (i + 1), down := Some (i + 1),
      column := Some (i + 1), right := Some 0, left := Some i\<rparr>"
    using len by (simp add: h7_def nth_upd nth_append)
  have ok7: "hdrs_ok (i + 1) h7"
    unfolding hdrs_ok_def
  proof (intro conjI allI impI)
    show "i + 1 < length h7" using l7 by simp
    show "left (h7 ! 0) = Some 0" "up (h7 ! 0) = Some 0" "down (h7 ! 0) = Some 0"
      "column (h7 ! 0) = Some 0" "columnSize (h7 ! 0) = - 1"
      using H by (simp_all add: h0 hdrs_ok_def)
    show "right (h7 ! 0) = Some (if i + 1 = 0 then 0 else 1)"
      using H by (simp add: h0 hdrs_ok_def)
  next
    fix k assume k: "1 \<le> k \<and> k \<le> i + 1"
    consider (a) "k < i" | (b) "k = i" | (c) "k = i + 1" using k by linarith
    then have "left (h7 ! k) = Some (k - 1) \<and> right (h7 ! k) = Some (if k = i + 1 then 0 else k + 1)
        \<and> column (h7 ! k) = Some k \<and> up (h7 ! k) = Some k \<and> down (h7 ! k) = Some k"
    proof cases
      case a
      have "\<exists>u. up (h ! k) = Some u \<and> (u = k \<or> (i < u \<and> u < length h \<and> column (h ! u) = Some k))"
        "\<exists>d. down (h ! k) = Some d \<and> (d = k \<or> (i < d \<and> d < length h \<and> column (h ! d) = Some k))"
        using H k a unfolding hdrs_ok_def by auto
      then have "up (h ! k) = Some k" "down (h ! k) = Some k" using len by auto
      then show ?thesis using H k a hk[of k] by (auto simp: hdrs_ok_def)
    next
      case b
      have "\<exists>u. up (h ! k) = Some u \<and> (u = k \<or> (i < u \<and> u < length h \<and> column (h ! u) = Some k))"
        "\<exists>d. down (h ! k) = Some d \<and> (d = k \<or> (i < d \<and> d < length h \<and> column (h ! d) = Some k))"
        using H k b unfolding hdrs_ok_def by auto
      then have "up (h ! k) = Some k" "down (h ! k) = Some k" using len by auto
      then show ?thesis using H k b hi by (auto simp: hdrs_ok_def)
    next
      case c
      then show ?thesis using hn by (simp add: new_DLXNode_def)
    qed
    then show "left (h7 ! k) = Some (k - 1)" "right (h7 ! k) = Some (if k = i + 1 then 0 else k + 1)"
      "column (h7 ! k) = Some k"
      "\<exists>u. up (h7 ! k) = Some u \<and> (u = k \<or> (i + 1 < u \<and> u < length h7 \<and> column (h7 ! u) = Some k))"
      "\<exists>d. down (h7 ! k) = Some d \<and> (d = k \<or> (i + 1 < d \<and> d < length h7 \<and> column (h7 ! d) = Some k))"
      by simp_all
  qed
  have m: "m = exactCoverCols s - (i + 1)" using Suc.hyps(2) by simp
  have "\<exists>h'. columnNodes s (i + 1) (Some 0) (Some (i + 1)) h7 = Some h'
      \<and> hdrs_ok (exactCoverCols s) h' \<and> length h' = exactCoverCols s + 1"
    using Suc.hyps(1)[OF m ok7 l7] lt by simp
  then show ?case unfolding step .
qed

lemma addNode_inv:
  assumes H: "hdrs_ok C h" and Rw: "rows_ok C h" and P: "prev_ok C j h prev" and j: "j < C"
  shows "\<exists>h1. addNode ident (Some (j + 1)) prev h = Some (h1, Some (length h))
     \<and> hdrs_ok C h1 \<and> rows_ok C h1 \<and> prev_ok C (j + 1) h1 (Some (length h))
     \<and> length h1 = length h + 1
     \<and> (\<forall>n<length h. rowData (h1 ! n) = rowData (h ! n) \<and> column (h1 ! n) = column (h ! n))
     \<and> rowData (h1 ! length h) = [ident ! 0, ident ! 1, ident ! 2]
     \<and> column (h1 ! length h) = Some (j + 1)
     \<and> right (h1 ! (j + 1)) = right (h ! (j + 1))"
proof -
  let ?t = "j + 1" and ?n = "length h"
  have t: "1 \<le> ?t" "?t \<le> C" using j by simp_all
  have Cn: "C < ?n" using H by (simp add: hdrs_ok_def)
  then have tn: "?t < ?n" using j by simp
  obtain u where u: "up (h ! ?t) = Some u" "u = ?t \<or> (C < u \<and> u < ?n \<and> column (h ! u) = Some ?t)"
    using H t unfolding hdrs_ok_def by blast
  obtain d where d: "down (h ! ?t) = Some d"
    using H t unfolding hdrs_ok_def by blast
  have un: "u < ?n" using u(2) tn by auto
  show ?thesis
  proof (cases prev)
    case None
    obtain h1 where a: "addNode ident (Some ?t) None h = Some (h1, Some ?n)"
        and na: "node_added h h1 ?n ?n ?t u d ident"
      using addNode_effect_first[OF tn u(1) un d] by blast
    note J = node_added_J[OF na H Rw t u(1) d Cn le_refl Cn le_refl]
    have len: "length h1 = ?n + 1" using node_added_nth(8)[OF na le_refl] .
    have "prev_ok C (j + 1) h1 (Some ?n)"
      using J(5,6) Cn len by (simp add: prev_ok_def)
    then show ?thesis using a J len None by simp
  next
    case (Some p)
    then obtain cp r cr where p: "C < p" "p < ?n" "column (h ! p) = Some cp" "cp \<le> j"
        "right (h ! p) = Some r" "C < r" "r < ?n" "column (h ! r) = Some cr" "cr \<le> j"
      using P by (auto simp: prev_ok_def)
    have x: "p \<noteq> ?t" "r \<noteq> ?t" "p \<noteq> u" "r \<noteq> u"
      using p u(2) j by auto
    obtain h1 where a: "addNode ident (Some ?t) (Some p) h = Some (h1, Some ?n)"
        and na: "node_added h h1 p r ?t u d ident"
      using addNode_effect_next[OF tn u(1) un d p(2) p(5) p(7) x] by blast
    have pl: "p \<le> ?n" "r \<le> ?n" "p = ?n \<longrightarrow> r = ?n" using p by simp_all
    note J = node_added_J[OF na H Rw t u(1) d p(1) pl(1) p(6) pl(2) pl(3)]
    have len: "length h1 = ?n + 1" using node_added_nth(8)[OF na le_refl] .
    have "column (h1 ! r) = Some cr" using J(3) p by simp
    then have "prev_ok C (j + 1) h1 (Some ?n)"
      using J(5,6) Cn len p by (simp add: prev_ok_def)
    then show ?thesis using a J len Some by simp
  qed
qed

lemma prev_ok_mono: "prev_ok C j h prev \<Longrightarrow> prev_ok C (j + 1) h prev"
  by (cases prev) (auto simp: prev_ok_def)

lemma rowNodes_cols_ok:
  assumes "j \<le> exactCoverCols s" "hdrs_ok (exactCoverCols s) h" "rows_ok (exactCoverCols s) h"
    "prev_ok (exactCoverCols s) j h prev" "j < exactCoverCols s \<longrightarrow> top0 = Some (j + 1)"
    "i < length M" "length (M ! i) = exactCoverCols s"
  shows "\<exists>h'. rowNodes_cols s M ident i j top0 prev h = Some h'
     \<and> hdrs_ok (exactCoverCols s) h' \<and> rows_ok (exactCoverCols s) h'
     \<and> length h' = length h + length (filter (\<lambda>c. M ! i ! c) [j..<exactCoverCols s])
     \<and> (\<forall>n<length h. rowData (h' ! n) = rowData (h ! n) \<and> column (h' ! n) = column (h ! n))
     \<and> (\<forall>t<length (filter (\<lambda>c. M ! i ! c) [j..<exactCoverCols s]).
           rowData (h' ! (length h + t)) = [ident ! 0, ident ! 1, ident ! 2]
         \<and> column (h' ! (length h + t)) = Some (filter (\<lambda>c. M ! i ! c) [j..<exactCoverCols s] ! t + 1))"
  using assms
proof (induction "exactCoverCols s - j" arbitrary: j top0 prev h)
  case 0
  then have "j = exactCoverCols s" by simp
  then show ?case using 0 by (simp add: rowNodes_cols.simps[of s M ident i "exactCoverCols s"])
next
  case (Suc m)
  let ?C = "exactCoverCols s"
  let ?F = "\<lambda>j. filter (\<lambda>c. M ! i ! c) [j..<?C]"
  have lt: "j < ?C" using Suc.hyps(2) by simp
  have top: "top0 = Some (j + 1)" using Suc.prems lt by simp
  have H: "hdrs_ok ?C h" and Rw: "rows_ok ?C h" and P: "prev_ok ?C j h prev"
    and Mi: "i < length M" "length (M ! i) = ?C"
    using Suc.prems by simp_all
  have Cn: "?C < length h" using H by (simp add: hdrs_ok_def)
  have mg: "mget M i j = Some (M ! i ! j)" using Mi lt by (simp add: mget_def)
  have m: "m = ?C - (j + 1)" using Suc.hyps(2) by simp
  have rt: "right (h ! (j + 1)) = Some (if j + 1 = ?C then 0 else j + 1 + 1)"
    using H lt unfolding hdrs_ok_def by simp
  have upt: "[j..<?C] = j # [j + 1..<?C]" using lt by (simp add: upt_conv_Cons)
  show ?case
  proof (cases "M ! i ! j")
    case False
    have step: "rowNodes_cols s M ident i j top0 prev h
        = rowNodes_cols s M ident i (j + 1) (Some (if j + 1 = ?C then 0 else j + 1 + 1)) prev h"
      using lt mg False top Cn rt
      by (subst rowNodes_cols.simps) simp
    have F: "?F j = ?F (j + 1)" using False by (simp add: upt)
    have "\<exists>h'. rowNodes_cols s M ident i (j + 1) (Some (if j + 1 = ?C then 0 else j + 1 + 1)) prev h = Some h'
     \<and> hdrs_ok ?C h' \<and> rows_ok ?C h'
     \<and> length h' = length h + length (?F (j + 1))
     \<and> (\<forall>n<length h. rowData (h' ! n) = rowData (h ! n) \<and> column (h' ! n) = column (h ! n))
     \<and> (\<forall>t<length (?F (j + 1)).
           rowData (h' ! (length h + t)) = [ident ! 0, ident ! 1, ident ! 2]
         \<and> column (h' ! (length h + t)) = Some (?F (j + 1) ! t + 1))"
      using lt by (intro Suc.hyps(1)[OF m _ H Rw prev_ok_mono[OF P] _ Mi]) simp_all
    then show ?thesis unfolding step F .
  next
    case True
    obtain h1 where a: "addNode ident (Some (j + 1)) prev h = Some (h1, Some (length h))"
      and H1: "hdrs_ok ?C h1" and R1: "rows_ok ?C h1" and P1: "prev_ok ?C (j + 1) h1 (Some (length h))"
      and l1: "length h1 = length h + 1"
      and old1: "\<forall>n<length h. rowData (h1 ! n) = rowData (h ! n) \<and> column (h1 ! n) = column (h ! n)"
      and new1: "rowData (h1 ! length h) = [ident ! 0, ident ! 1, ident ! 2]"
         "column (h1 ! length h) = Some (j + 1)"
      and rt1: "right (h1 ! (j + 1)) = right (h ! (j + 1))"
      using addNode_inv[OF H Rw P lt, of ident] by blast
    have Cn1: "j + 1 < length h1" using Cn l1 lt by simp
    have step: "rowNodes_cols s M ident i j top0 prev h
        = rowNodes_cols s M ident i (j + 1) (Some (if j + 1 = ?C then 0 else j + 1 + 1)) (Some (length h)) h1"
      using lt mg True top a Cn1 rt rt1
      by (subst rowNodes_cols.simps) simp
    have F: "?F j = j # ?F (j + 1)" using True by (simp add: upt)
    have "\<exists>h'. rowNodes_cols s M ident i (j + 1) (Some (if j + 1 = ?C then 0 else j + 1 + 1)) (Some (length h)) h1 = Some h'
     \<and> hdrs_ok ?C h' \<and> rows_ok ?C h'
     \<and> length h' = length h1 + length (?F (j + 1))
     \<and> (\<forall>n<length h1. rowData (h' ! n) = rowData (h1 ! n) \<and> column (h' ! n) = column (h1 ! n))
     \<and> (\<forall>t<length (?F (j + 1)).
           rowData (h' ! (length h1 + t)) = [ident ! 0, ident ! 1, ident ! 2]
         \<and> column (h' ! (length h1 + t)) = Some (?F (j + 1) ! t + 1))"
      using lt by (intro Suc.hyps(1)[OF m _ H1 R1 P1 _ Mi]) simp_all
    then obtain h' where r: "rowNodes_cols s M ident i (j + 1) (Some (if j + 1 = ?C then 0 else j + 1 + 1)) (Some (length h)) h1 = Some h'"
      and H': "hdrs_ok ?C h'" "rows_ok ?C h'"
      and l': "length h' = length h1 + length (?F (j + 1))"
      and old': "\<And>n. n < length h1 \<Longrightarrow> rowData (h' ! n) = rowData (h1 ! n) \<and> column (h' ! n) = column (h1 ! n)"
      and new': "\<And>t. t < length (?F (j + 1)) \<Longrightarrow>
           rowData (h' ! (length h1 + t)) = [ident ! 0, ident ! 1, ident ! 2]
         \<and> column (h' ! (length h1 + t)) = Some (?F (j + 1) ! t + 1)"
      by blast
    have len: "length h' = length h + length (?F j)" using l' l1 F by simp
    have old: "\<forall>n<length h. rowData (h' ! n) = rowData (h ! n) \<and> column (h' ! n) = column (h ! n)"
      using old' old1 l1 by simp
    have new: "\<forall>t<length (?F j). rowData (h' ! (length h + t)) = [ident ! 0, ident ! 1, ident ! 2]
         \<and> column (h' ! (length h + t)) = Some (?F j ! t + 1)"
    proof (intro allI impI)
      fix t assume t: "t < length (?F j)"
      show "rowData (h' ! (length h + t)) = [ident ! 0, ident ! 1, ident ! 2]
         \<and> column (h' ! (length h + t)) = Some (?F j ! t + 1)"
      proof (cases t)
        case 0
        then show ?thesis using old'[of "length h"] l1 new1 F by simp
      next
        case (Suc t')
        then have "t' < length (?F (j + 1))" using t F by simp
        then show ?thesis using new'[of t'] Suc l1 F by simp
      qed
    qed
    show ?thesis unfolding step using r H' len old new by blast
  qed
qed

lemma pred_divmod0:
  fixes d i :: nat
  assumes "0 < d" "0 < i" "i mod d = 0"
  shows "(i - 1) mod d = d - 1" "Suc ((i - 1) div d) = i div d"
proof -
  obtain q where q: "i = d * q" using assms(3) by (auto simp: mod_eq_0_iff_dvd)
  then have q0: "0 < q" using assms(2) by (cases q) simp_all
  then obtain q' where q': "q = Suc q'" by (cases q) simp_all
  obtain r where r: "d = Suc r" using assms(1) by (cases d) simp_all
  have e: "i - 1 = d * q' + r" using q q' r by simp
  have lt: "r < d" using r by simp
  have "(i - 1) mod d = r" unfolding e using lt by simp
  then show "(i - 1) mod d = d - 1" using r by simp
  have "(i - 1) div d = q'" unfolding e using lt by simp
  then show "Suc ((i - 1) div d) = i div d" using q q' assms(1) by simp
qed

lemma pred_divmod1:
  fixes d i :: nat
  assumes "0 < d" "i mod d \<noteq> 0"
  shows "Suc ((i - 1) mod d) = i mod d" "(i - 1) div d = i div d"
proof -
  obtain r where r: "i mod d = Suc r" using assms(2) by (cases "i mod d") simp_all
  have rl: "r < d" using r mod_less_divisor[OF assms(1), of i] by simp
  have "i = d * (i div d) + i mod d" by simp
  then have e: "i - 1 = d * (i div d) + r" using r by simp
  have "(i - 1) mod d = r" by (subst e) (use rl in simp)
  then show "Suc ((i - 1) mod d) = i mod d" using r by simp
  show "(i - 1) div d = i div d" by (subst e) (use rl in simp)
qed

lemma next_id_meta:
  assumes N: "0 < gridSize s" and cc: "cellCount s = gridSize s * gridSize s"
    and id: "ident = (if i = 0 then [0, 1, 1] else meta (gridSize s) (i - 1))"
  shows "next_id s i ident = Some (meta (gridSize s) i)"
proof (cases "i = 0")
  case True
  then show ?thesis using id by (simp add: next_id_def meta_def)
next
  case False
  let ?N = "gridSize s"
  have i0: "0 < i" using False by simp
  have NN: "0 < ?N * ?N" using N by simp
  have idm: "ident = meta ?N (i - 1)" using id False by simp
  have id0: "ident ! 0 = int ((i - 1) mod ?N) + 1" "ident ! 1 = int ((i - 1) div (?N * ?N)) + 1"
    "ident ! 2 = int ((i - 1) div ?N mod ?N) + 1"
    by (simp_all add: idm meta_def)
  consider (a) "i mod (?N * ?N) = 0" | (b) "i mod (?N * ?N) \<noteq> 0" "i mod ?N = 0" | (c) "i mod ?N \<noteq> 0"
    by blast
  then show ?thesis
  proof cases
    case a
    then have "?N * ?N dvd i" by (simp add: mod_eq_0_iff_dvd)
    then have dv: "?N dvd i" using dvd_mult_left by blast
    then have mN: "i mod ?N = 0" by simp
    have q: "i div ?N mod ?N = 0"
      using \<open>?N * ?N dvd i\<close> N by (metis dvd_div_iff_mult dvd_imp_mod_0 dv less_numeral_extra(3))
    have "i = ?N * (i div ?N)" using mN by (simp add: mod_eq_0_iff_dvd)
    then have q0: "0 < i div ?N" using i0 by (cases "i div ?N") simp_all
    note p1 = pred_divmod0[OF N i0 mN]
    note p2 = pred_divmod0[OF NN i0 a]
    note p3 = pred_divmod0[OF N q0 q]
    have e0: "int ((i - 1) mod ?N) + 1 = int ?N" using p1(1) N by simp
    have e1: "int ((i - 1) div (?N * ?N)) + 1 = int (i div (?N * ?N))"
      using p2(2) by (metis of_nat_Suc add.commute)
    have d1: "(i - 1) div ?N = i div ?N - 1" using p1(2) by simp
    have m2: "(i - 1) div ?N mod ?N = ?N - 1" using p3(1) by (simp only: d1)
    have e2: "int ((i - 1) div ?N mod ?N) + 1 = int ?N" using m2 N by simp
    show ?thesis using a False N NN e0 e1 e2 mN q id0
      by (simp add: next_id_def cc meta_def)
  next
    case b
    have q: "i div ?N mod ?N \<noteq> 0"
    proof
      assume z: "i div ?N mod ?N = 0"
      have "i = ?N * (i div ?N)" using b(2) by (simp add: mod_eq_0_iff_dvd)
      moreover have "i div ?N = ?N * (i div ?N div ?N)" using z by (simp add: mod_eq_0_iff_dvd)
      ultimately have "i = ?N * ?N * (i div ?N div ?N)" by (metis mult.assoc)
      then have "i mod (?N * ?N) = 0" by (metis mod_mult_self1_is_0)
      then show False using b(1) by simp
    qed
    note p1 = pred_divmod0[OF N i0 b(2)]
    note p2 = pred_divmod1[OF NN b(1)]
    note p3 = pred_divmod1[OF N q]
    have e0: "int ((i - 1) mod ?N) + 1 = int ?N" using p1(1) N by simp
    have d1: "(i - 1) div ?N = i div ?N - 1" using p1(2) by simp
    have e2: "int ((i - 1) div ?N mod ?N) + 1 = int (i div ?N mod ?N)"
      using p3(1) by (metis d1 of_nat_Suc add.commute)
    show ?thesis using b False N NN e0 e2 p2(2) id0
      by (simp add: next_id_def cc meta_def)
  next
    case c
    have c2: "i mod (?N * ?N) \<noteq> 0"
    proof
      assume "i mod (?N * ?N) = 0"
      then have "?N * ?N dvd i" by (simp add: mod_eq_0_iff_dvd)
      then have "?N dvd i" using dvd_mult_left by blast
      then show False using c by simp
    qed
    note p1 = pred_divmod1[OF N c]
    note p2 = pred_divmod1[OF NN c2]
    have e0: "int ((i - 1) mod ?N) + 1 = int (i mod ?N)"
      using p1(1) by (metis of_nat_Suc add.commute)
    show ?thesis using c c2 False N NN e0 p1(2) p2(2) id0
      by (simp add: next_id_def cc meta_def)
  qed
qed

lemma rowNodes_ok:
  assumes N: "0 < gridSize s" and cc: "cellCount s = gridSize s * gridSize s"
    and C0: "0 < exactCoverCols s"
    and M: "length M = exactCoverRows s" "\<forall>r<exactCoverRows s. length (M ! r) = exactCoverCols s"
      "\<forall>r<exactCoverRows s. length (filter (\<lambda>c. M ! r ! c) [0..<exactCoverCols s]) = 4"
    and i: "i \<le> exactCoverRows s"
    and H: "hdrs_ok (exactCoverCols s) h" and Rw: "rows_ok (exactCoverCols s) h"
    and len: "length h = exactCoverCols s + 1 + 4 * i"
    and id: "ident = (if i = 0 then [0, 1, 1] else meta (gridSize s) (i - 1))"
  shows "\<exists>h'. rowNodes s M (Some 0) i ident h = Some h'
     \<and> hdrs_ok (exactCoverCols s) h' \<and> rows_ok (exactCoverCols s) h'
     \<and> length h' = exactCoverCols s + 1 + 4 * exactCoverRows s
     \<and> (\<forall>n<length h. rowData (h' ! n) = rowData (h ! n) \<and> column (h' ! n) = column (h ! n))
     \<and> (\<forall>r. i \<le> r \<and> r < exactCoverRows s \<longrightarrow> (\<forall>t<4.
           rowData (h' ! (exactCoverCols s + 1 + 4 * r + t)) = meta (gridSize s) r
         \<and> column (h' ! (exactCoverCols s + 1 + 4 * r + t))
             = Some (filter (\<lambda>c. M ! r ! c) [0..<exactCoverCols s] ! t + 1)))"
  using i H Rw len id
proof (induction "exactCoverRows s - i" arbitrary: i h ident)
  case 0
  then have "i = exactCoverRows s" by simp
  then show ?case using 0 by (auto simp: rowNodes.simps[of s M _ "exactCoverRows s"])
next
  case (Suc m)
  let ?C = "exactCoverCols s" and ?R = "exactCoverRows s" and ?N = "gridSize s"
  let ?F = "\<lambda>r. filter (\<lambda>c. M ! r ! c) [0..<?C]"
  have lt: "i < ?R" using Suc.hyps(2) by simp
  have H: "hdrs_ok ?C h" and Rw: "rows_ok ?C h" and len: "length h = ?C + 1 + 4 * i"
    and id: "ident = (if i = 0 then [0, 1, 1] else meta ?N (i - 1))"
    using Suc.prems by simp_all
  have r0: "right (h ! 0) = Some 1" using H C0 by (simp add: hdrs_ok_def)
  have h0: "0 < length h" using len by simp
  have nid: "next_id s i ident = Some (meta ?N i)" using next_id_meta[OF N cc id] .
  have Mi: "i < length M" "length (M ! i) = ?C" "length (?F i) = 4" using M lt by simp_all
  have mt: "[meta ?N i ! 0, meta ?N i ! 1, meta ?N i ! 2] = meta ?N i" by (simp add: meta_def)
  obtain h1 where r1: "rowNodes_cols s M (meta ?N i) i 0 (Some 1) None h = Some h1"
      and H1: "hdrs_ok ?C h1" and R1: "rows_ok ?C h1"
      and l1: "length h1 = length h + length (?F i)"
      and old1: "\<And>n. n < length h \<Longrightarrow> rowData (h1 ! n) = rowData (h ! n) \<and> column (h1 ! n) = column (h ! n)"
      and new1: "\<And>t. t < length (?F i) \<Longrightarrow>
           rowData (h1 ! (length h + t)) = [meta ?N i ! 0, meta ?N i ! 1, meta ?N i ! 2]
         \<and> column (h1 ! (length h + t)) = Some (?F i ! t + 1)"
    using rowNodes_cols_ok[of 0 s h None "Some 1" i M "meta ?N i"] H Rw Mi
    by (auto simp: prev_ok_def)
  have step: "rowNodes s M (Some 0) i ident h = rowNodes s M (Some 0) (i + 1) (meta ?N i) h1"
    using lt r0 h0 nid r1 by (subst rowNodes.simps) simp
  have m: "m = ?R - (i + 1)" using Suc.hyps(2) by simp
  have l1': "length h1 = ?C + 1 + 4 * (i + 1)" using l1 len Mi(3) by simp
  have "\<exists>h'. rowNodes s M (Some 0) (i + 1) (meta ?N i) h1 = Some h'
     \<and> hdrs_ok ?C h' \<and> rows_ok ?C h'
     \<and> length h' = ?C + 1 + 4 * ?R
     \<and> (\<forall>n<length h1. rowData (h' ! n) = rowData (h1 ! n) \<and> column (h' ! n) = column (h1 ! n))
     \<and> (\<forall>r. i + 1 \<le> r \<and> r < ?R \<longrightarrow> (\<forall>t<4.
           rowData (h' ! (?C + 1 + 4 * r + t)) = meta ?N r
         \<and> column (h' ! (?C + 1 + 4 * r + t)) = Some (?F r ! t + 1)))"
    using lt by (intro Suc.hyps(1)[OF m _ H1 R1 l1']) simp_all
  then obtain h' where r: "rowNodes s M (Some 0) (i + 1) (meta ?N i) h1 = Some h'"
      and H': "hdrs_ok ?C h'" "rows_ok ?C h'" "length h' = ?C + 1 + 4 * ?R"
      and old': "\<And>n. n < length h1 \<Longrightarrow> rowData (h' ! n) = rowData (h1 ! n) \<and> column (h' ! n) = column (h1 ! n)"
      and new': "\<And>r t. i + 1 \<le> r \<Longrightarrow> r < ?R \<Longrightarrow> t < 4 \<Longrightarrow>
           rowData (h' ! (?C + 1 + 4 * r + t)) = meta ?N r
         \<and> column (h' ! (?C + 1 + 4 * r + t)) = Some (?F r ! t + 1)"
    by blast
  have old: "\<forall>n<length h. rowData (h' ! n) = rowData (h ! n) \<and> column (h' ! n) = column (h ! n)"
    using old' old1 l1 by simp
  have new: "\<forall>r. i \<le> r \<and> r < ?R \<longrightarrow> (\<forall>t<4.
           rowData (h' ! (?C + 1 + 4 * r + t)) = meta ?N r
         \<and> column (h' ! (?C + 1 + 4 * r + t)) = Some (?F r ! t + 1))"
  proof (intro allI impI)
    fix r t :: nat assume r: "i \<le> r \<and> r < ?R" and t: "t < 4"
    show "rowData (h' ! (?C + 1 + 4 * r + t)) = meta ?N r
         \<and> column (h' ! (?C + 1 + 4 * r + t)) = Some (?F r ! t + 1)"
    proof (cases "r = i")
      case True
      have a: "?C + 1 + 4 * r + t = length h + t" using True len by simp
      have b: "length h + t < length h1" using l1 Mi(3) t by simp
      have c: "t < length (?F i)" using Mi(3) t by simp
      show ?thesis unfolding a using old'[OF b] new1[OF c] mt True by simp
    next
      case False
      then show ?thesis using new'[of r t] r t by simp
    qed
  qed
  show ?case unfolding step using r H' old new by blast
qed

lemma filter_four:
  fixes a b c d C :: nat
  assumes o: "a < b" "b < c" "c < d" "d < C"
    and P: "\<forall>j<C. P j = (j = a \<or> j = b \<or> j = c \<or> j = d)"
  shows "filter P [0..<C] = [a, b, c, d]"
proof (rule sorted_distinct_set_unique)
  show "sorted (filter P [0..<C])" by (rule sorted_filter[of "\<lambda>x. x", simplified]) simp
  show "distinct (filter P [0..<C])" by simp
  show "sorted [a, b, c, d]" using o by simp
  show "distinct [a, b, c, d]" using o by simp
  show "set (filter P [0..<C]) = set [a, b, c, d]" using o P by auto
qed

lemma reserve_fits:
  fixes n :: nat
  assumes "n \<le> 812"
  shows "1 + int (4 * (n * n)) + 4 * int (n * (n * n)) \<le> 2147483647"
proof -
  have a: "n * n \<le> 812 * 812" using assms by (intro mult_mono) simp_all
  then have b: "n * (n * n) \<le> 812 * (812 * 812)" using assms by (intro mult_mono) simp_all
  have "1 + 4 * (n * n) + 4 * (n * (n * n)) \<le> 1 + 4 * (812 * 812) + 4 * (812 * (812 * 812))"
    using a b by linarith
  then have "1 + 4 * (n * n) + 4 * (n * (n * n)) \<le> 2147483647" by simp
  then show ?thesis by linarith
qed

lemma build_torus:
  assumes v: "valid_solver s" and N: "0 < gridSize s" "gridSize s \<le> 812" and e: "allNodes s = []"
  shows "\<exists>M h. buildExactCoverMatrix s (replicate (exactCoverRows s) (replicate (exactCoverCols s) False)) = Some M
     \<and> buildDLXLinkedList s M = Some (s\<lparr>allNodes := h, rootHeader := Some 0\<rparr>)
     \<and> hdrs_ok (exactCoverCols s) h \<and> rows_ok (exactCoverCols s) h
     \<and> length h = exactCoverCols s + 1 + 4 * exactCoverRows s
     \<and> (\<forall>i<exactCoverRows s. \<forall>j<exactCoverCols s. M ! i ! j =
           (j = cellColumn (gridSize s) i \<or> j = rowColumn (gridSize s) i
            \<or> j = colColumn (gridSize s) i \<or> j = blockColumn (gridSize s) (blockSize s) i))
     \<and> (\<forall>r<exactCoverRows s. \<forall>t<4.
           rowData (h ! (exactCoverCols s + 1 + 4 * r + t)) = meta (gridSize s) r
         \<and> column (h ! (exactCoverCols s + 1 + 4 * r + t))
             = Some ([cellColumn (gridSize s) r, rowColumn (gridSize s) r, colColumn (gridSize s) r,
                      blockColumn (gridSize s) (blockSize s) r] ! t + 1))"
proof -
  let ?N = "gridSize s" and ?B = "blockSize s" and ?C = "exactCoverCols s" and ?R = "exactCoverRows s"
  have vN: "?N = ?B * ?B" and cc: "cellCount s = ?N * ?N" and R: "?R = ?N * (?N * ?N)"
      and C: "?C = 4 * (?N * ?N)"
    using v by (simp_all add: valid_solver_def)
  have B0: "0 < ?B" using N(1) vN by (cases "?B = 0") simp_all
  have C0: "0 < ?C" using C N(1) by simp
  obtain M where M: "buildExactCoverMatrix s (replicate ?R (replicate ?C False)) = Some M"
      and d: "dims M ?R ?C"
      and ent: "\<forall>i<?R. \<forall>j<?C. M ! i ! j =
           (j = cellColumn ?N i \<or> j = rowColumn ?N i \<or> j = colColumn ?N i \<or> j = blockColumn ?N ?B i)"
    using build_matrix_entries[OF v] by blast
  have lenM: "length M = ?R" and rowlen: "\<forall>r<?R. length (M ! r) = ?C"
    using d by (auto simp: dims_def)
  have F: "\<And>r. r < ?R \<Longrightarrow> filter (\<lambda>c. M ! r ! c) [0..<?C]
      = [cellColumn ?N r, rowColumn ?N r, colColumn ?N r, blockColumn ?N ?B r]"
  proof -
    fix r assume r: "r < ?R"
    then have r3: "r < ?N * ?N * ?N" using R by (simp add: mult.assoc)
    note rg = column_ranges[OF B0 vN r3]
    show "filter (\<lambda>c. M ! r ! c) [0..<?C]
      = [cellColumn ?N r, rowColumn ?N r, colColumn ?N r, blockColumn ?N ?B r]"
    proof (rule filter_four)
      show "cellColumn ?N r < rowColumn ?N r" using rg by linarith
      show "rowColumn ?N r < colColumn ?N r" using rg by linarith
      show "colColumn ?N r < blockColumn ?N ?B r" using rg by linarith
      show "blockColumn ?N ?B r < ?C" using rg C by linarith
      show "\<forall>j<?C. M ! r ! j = (j = cellColumn ?N r \<or> j = rowColumn ?N r
          \<or> j = colColumn ?N r \<or> j = blockColumn ?N ?B r)"
        using ent r by blast
    qed
  qed
  then have F4: "\<forall>r<?R. length (filter (\<lambda>c. M ! r ! c) [0..<?C]) = 4" by simp
  define h6 where "h6 = [new_DLXNode\<lparr>left := Some 0, right := Some 0, down := Some 0, up := Some 0,
      columnSize := - 1, column := Some 0\<rparr>]"
  have ok6: "hdrs_ok 0 h6" by (simp add: hdrs_ok_def h6_def new_DLXNode_def)
  obtain h7 where h7: "columnNodes s 0 (Some 0) (Some 0) h6 = Some h7" "hdrs_ok ?C h7"
      "length h7 = ?C + 1"
    using columnNodes_ok[OF ok6, of s] by (auto simp: h6_def)
  have r7: "rows_ok ?C h7" using h7(3) by (auto simp: rows_ok_def)
  obtain h8 where h8: "rowNodes s M (Some 0) 0 [0, 1, 1] h7 = Some h8"
      "hdrs_ok ?C h8" "rows_ok ?C h8" "length h8 = ?C + 1 + 4 * ?R"
      and md: "\<forall>r. 0 \<le> r \<and> r < ?R \<longrightarrow> (\<forall>t<4.
           rowData (h8 ! (?C + 1 + 4 * r + t)) = meta ?N r
         \<and> column (h8 ! (?C + 1 + 4 * r + t)) = Some (filter (\<lambda>c. M ! r ! c) [0..<?C] ! t + 1))"
    using rowNodes_ok[OF N(1) cc C0 lenM rowlen F4, of 0 h7 "[0, 1, 1]"] h7(2,3) r7 by auto
  have fits: "1 + int ?C + 4 * int ?R \<le> 2147483647"
    using reserve_fits[OF N(2)] unfolding C R by simp
  have b: "buildDLXLinkedList s M = Some (s\<lparr>allNodes := h8, rootHeader := Some 0\<rparr>)"
    using fits h7(1) h8(1)
    by (simp add: buildDLXLinkedList_def e alloc_def int_ok_def INT_MAX_def INT_MIN_def h6_def)
  have md': "\<forall>r<?R. \<forall>t<4.
           rowData (h8 ! (?C + 1 + 4 * r + t)) = meta ?N r
         \<and> column (h8 ! (?C + 1 + 4 * r + t))
             = Some ([cellColumn ?N r, rowColumn ?N r, colColumn ?N r, blockColumn ?N ?B r] ! t + 1)"
    using md F by simp
  show ?thesis using M b h8(2,3,4) ent md' by blast
qed

section \<open>Row metadata of the torus\<close>

lemma solver4_valid: "valid_solver solver4"
  by (simp add: valid_solver_def solver4_def)

lemma build_torus_constructed:
  assumes c: "construct sz = Some (Inr s)" and sz: "0 < sz" "sz \<le> 812"
  shows "\<exists>M h. buildExactCoverMatrix s (replicate (exactCoverRows s) (replicate (exactCoverCols s) False)) = Some M
     \<and> buildDLXLinkedList s M = Some (s\<lparr>allNodes := h, rootHeader := Some 0\<rparr>)
     \<and> hdrs_ok (exactCoverCols s) h \<and> rows_ok (exactCoverCols s) h
     \<and> length h = exactCoverCols s + 1 + 4 * exactCoverRows s
     \<and> (\<forall>i<exactCoverRows s. \<forall>j<exactCoverCols s. M ! i ! j =
           (j = cellColumn (gridSize s) i \<or> j = rowColumn (gridSize s) i
            \<or> j = colColumn (gridSize s) i \<or> j = blockColumn (gridSize s) (blockSize s) i))
     \<and> (\<forall>r<exactCoverRows s. \<forall>t<4.
           rowData (h ! (exactCoverCols s + 1 + 4 * r + t)) = meta (gridSize s) r
         \<and> column (h ! (exactCoverCols s + 1 + 4 * r + t))
             = Some ([cellColumn (gridSize s) r, rowColumn (gridSize s) r, colColumn (gridSize s) r,
                      blockColumn (gridSize s) (blockSize s) r] ! t + 1))"
proof -
  note f = construct_fields[OF c]
  have "0 < gridSize s" "gridSize s \<le> 812" using f(3) sz by simp_all
  then show ?thesis using build_torus[OF construct_valid[OF c] _ _ f(8)] by blast
qed

text \<open>
  Claim C3 says that the matrix rows form \<open>gridSize\<close> contiguous groups of \<open>cellCount\<close>
  rows, one group per candidate digit, the index within a group being
  \<open>cellRowIndex \<times> gridSize + cellColIndex\<close>, and that the metadata of a row node follows
  from its row index under this convention. For the 4\<times>4 solver rows 0 and 1 lie in the
  first group: by the convention they are digit 1 in the cells (row 1, column 1) and
  (row 1, column 2), metadata \<open>(1, 1, 1)\<close> and \<open>(1, 1, 2)\<close>. In the program both rows occupy
  the same cell (cell column 0), and their nodes (65 and 69 are the first nodes of rows
  0 and 1) store the digits 1 and 2 of the cell (row 1, column 1).
\<close>

theorem row_groups_counterexample:
  "\<exists>M s1. buildExactCoverMatrix solver4 (replicate 64 (replicate 64 False)) = Some M
     \<and> buildDLXLinkedList solver4 M = Some s1
     \<and> M ! 0 ! 0 \<and> M ! 1 ! 0
     \<and> rowData (allNodes s1 ! 65) = [1, 1, 1] \<and> rowData (allNodes s1 ! 69) = [2, 1, 1]"
proof -
  have g: "gridSize solver4 = 4" "exactCoverRows solver4 = 64" "exactCoverCols solver4 = 64"
    "blockSize solver4 = 2" "allNodes solver4 = []"
    by (simp_all add: solver4_def)
  obtain M h where M: "buildExactCoverMatrix solver4 (replicate 64 (replicate 64 False)) = Some M"
      and b: "buildDLXLinkedList solver4 M = Some (solver4\<lparr>allNodes := h, rootHeader := Some 0\<rparr>)"
      and ent: "\<And>i j. i < 64 \<Longrightarrow> j < 64 \<Longrightarrow> M ! i ! j =
           (j = cellColumn 4 i \<or> j = rowColumn 4 i \<or> j = colColumn 4 i \<or> j = blockColumn 4 2 i)"
      and md: "\<And>r t. r < 64 \<Longrightarrow> t < 4 \<Longrightarrow> rowData (h ! (64 + 1 + 4 * r + t)) = meta 4 r"
    using build_torus[OF solver4_valid] unfolding g by auto
  have "M ! 0 ! 0" "M ! 1 ! 0" using ent[of 0 0] ent[of 1 0] by (simp_all add: cellColumn_def)
  moreover have "rowData (h ! 65) = [1, 1, 1]" using md[of 0 0] by (simp add: meta_def)
  moreover have "rowData (h ! 69) = [2, 1, 1]" using md[of 1 0] by (simp add: meta_def)
  ultimately show ?thesis using M b by simp
qed

text \<open>
  Claim C3, amended. The rows form \<open>gridSize\<close> contiguous groups of \<open>cellCount\<close> rows, one
  group per grid row \<open>r\<close>; within a group the index is \<open>c \<times> gridSize + d\<close> for the grid
  column \<open>c\<close> and the digit \<open>d + 1\<close>. For every solver the constructor returns whose torus
  can be reserved (\<open>1 + 4N\<^sup>2 + 4N\<^sup>3\<close> fits an \<^verbatim>\<open>int\<close>, that is \<open>N \<le> 812\<close>), the matrix and
  the torus are built, matrix row \<open>r \<times> cellCount + c \<times> gridSize + d\<close> is true in the columns
  of cell \<open>(r, c)\<close>, of digit \<open>d + 1\<close> in row \<open>r\<close>, in column \<open>c\<close> and in the block of
  \<open>(r, c)\<close>, each of its four nodes stores \<open>(d + 1, r + 1, c + 1)\<close>, and every row index has
  this form.
\<close>

theorem torus_row_metadata:
  assumes "construct sz = Some (Inr s)" "0 < sz" "sz \<le> 812"
  shows "\<exists>M s1. buildExactCoverMatrix s (replicate (exactCoverRows s) (replicate (exactCoverCols s) False)) = Some M
     \<and> buildDLXLinkedList s M = Some s1
     \<and> length (allNodes s1) = 1 + exactCoverCols s + 4 * exactCoverRows s
     \<and> (\<forall>r<gridSize s. \<forall>c<gridSize s. \<forall>d<gridSize s.
           r * cellCount s + c * gridSize s + d < exactCoverRows s
         \<and> M ! (r * cellCount s + c * gridSize s + d) ! (r * gridSize s + c)
         \<and> M ! (r * cellCount s + c * gridSize s + d) ! (cellCount s + r * gridSize s + d)
         \<and> M ! (r * cellCount s + c * gridSize s + d) ! (2 * cellCount s + c * gridSize s + d)
         \<and> M ! (r * cellCount s + c * gridSize s + d)
              ! (3 * cellCount s + blockIndex (blockSize s) r c * gridSize s + d)
         \<and> (\<forall>t<4. rowData (allNodes s1
                ! (1 + exactCoverCols s + 4 * (r * cellCount s + c * gridSize s + d) + t))
              = [int d + 1, int r + 1, int c + 1]))
     \<and> (\<forall>i<exactCoverRows s. \<exists>r<gridSize s. \<exists>c<gridSize s. \<exists>d<gridSize s.
           i = r * cellCount s + c * gridSize s + d)"
proof -
  let ?N = "gridSize s" and ?B = "blockSize s" and ?C = "exactCoverCols s" and ?R = "exactCoverRows s"
  have v: "valid_solver s" using assms(1) by (rule construct_valid)
  then have vN: "?N = ?B * ?B" and cc: "cellCount s = ?N * ?N" and R: "?R = ?N * ?N * ?N"
      and C: "?C = 4 * (?N * ?N)"
    by (simp_all add: valid_solver_def)
  have N0: "0 < ?N" using construct_fields(3)[OF assms(1)] assms(2) by simp
  have B0: "0 < ?B" using N0 vN by (cases "?B = 0") simp_all
  obtain M h where M: "buildExactCoverMatrix s (replicate ?R (replicate ?C False)) = Some M"
      and b: "buildDLXLinkedList s M = Some (s\<lparr>allNodes := h, rootHeader := Some 0\<rparr>)"
      and len: "length h = ?C + 1 + 4 * ?R"
      and ent: "\<And>i j. i < ?R \<Longrightarrow> j < ?C \<Longrightarrow> M ! i ! j =
           (j = cellColumn ?N i \<or> j = rowColumn ?N i \<or> j = colColumn ?N i \<or> j = blockColumn ?N ?B i)"
      and md: "\<And>r t. r < ?R \<Longrightarrow> t < 4 \<Longrightarrow> rowData (h ! (?C + 1 + 4 * r + t)) = meta ?N r"
    using build_torus_constructed[OF assms] by blast
  have rows: "\<forall>r<?N. \<forall>c<?N. \<forall>d<?N.
           r * cellCount s + c * ?N + d < ?R
         \<and> M ! (r * cellCount s + c * ?N + d) ! (r * ?N + c)
         \<and> M ! (r * cellCount s + c * ?N + d) ! (cellCount s + r * ?N + d)
         \<and> M ! (r * cellCount s + c * ?N + d) ! (2 * cellCount s + c * ?N + d)
         \<and> M ! (r * cellCount s + c * ?N + d) ! (3 * cellCount s + blockIndex ?B r c * ?N + d)
         \<and> (\<forall>t<4. rowData (h ! (1 + ?C + 4 * (r * cellCount s + c * ?N + d) + t))
              = [int d + 1, int r + 1, int c + 1])"
  proof (intro allI impI)
    fix r c d assume r: "r < ?N" and c: "c < ?N" and d: "d < ?N"
    let ?i = "r * (?N * ?N) + c * ?N + d"
    have i: "?i < ?R" unfolding R using r c d by (rule triple_lt)
    have i3: "?i < ?N * ?N * ?N" using i R by simp
    have e: "?i mod ?N = d" "?i div ?N = r * ?N + c" "?i div ?N mod ?N = c" "?i div (?N * ?N) = r"
      using c d by (simp_all add: enc_mod enc_div_N enc_mid enc_div)
    have em: "?i mod (?N * ?N) = c * ?N + d"
    proof -
      have "c * ?N + d < ?N * ?N" using c d by (rule pair_lt)
      then show ?thesis by (simp add: add.assoc)
    qed
    note rg = column_ranges[OF B0 vN i3]
    have c1: "cellColumn ?N ?i = r * ?N + c" by (simp add: cellColumn_def e)
    have c2: "rowColumn ?N ?i = ?N * ?N + r * ?N + d" by (simp only: rowColumn_def e)
    have c3: "colColumn ?N ?i = 2 * (?N * ?N) + c * ?N + d" unfolding colColumn_def em by simp
    have c4: "blockColumn ?N ?B ?i = 3 * (?N * ?N) + blockIndex ?B r c * ?N + d"
      by (simp only: blockColumn_def e(1,3,4))
    have j: "cellColumn ?N ?i < ?C" "rowColumn ?N ?i < ?C" "colColumn ?N ?i < ?C" "blockColumn ?N ?B ?i < ?C"
      using rg C by linarith+
    have m1: "M ! ?i ! (r * ?N + c)" using ent[OF i j(1)] c1 by simp
    have m2: "M ! ?i ! (?N * ?N + r * ?N + d)" using ent[OF i j(2)] c2 by simp
    have m3: "M ! ?i ! (2 * (?N * ?N) + c * ?N + d)" using ent[OF i j(3)] c3 by simp
    have m4: "M ! ?i ! (3 * (?N * ?N) + blockIndex ?B r c * ?N + d)" using ent[OF i j(4)] c4 by simp
    have mt: "meta ?N ?i = [int d + 1, int r + 1, int c + 1]" by (simp only: meta_def e(1,3,4))
    have rd: "\<forall>t<4. rowData (h ! (1 + ?C + 4 * ?i + t)) = [int d + 1, int r + 1, int c + 1]"
    proof (intro allI impI)
      fix t :: nat assume t: "t < 4"
      have "1 + ?C + 4 * ?i + t = ?C + 1 + 4 * ?i + t" by simp
      then show "rowData (h ! (1 + ?C + 4 * ?i + t)) = [int d + 1, int r + 1, int c + 1]"
        using md[OF i t] mt by simp
    qed
    show "r * cellCount s + c * ?N + d < ?R
         \<and> M ! (r * cellCount s + c * ?N + d) ! (r * ?N + c)
         \<and> M ! (r * cellCount s + c * ?N + d) ! (cellCount s + r * ?N + d)
         \<and> M ! (r * cellCount s + c * ?N + d) ! (2 * cellCount s + c * ?N + d)
         \<and> M ! (r * cellCount s + c * ?N + d) ! (3 * cellCount s + blockIndex ?B r c * ?N + d)
         \<and> (\<forall>t<4. rowData (h ! (1 + ?C + 4 * (r * cellCount s + c * ?N + d) + t))
              = [int d + 1, int r + 1, int c + 1])"
      unfolding cc using i m1 m2 m3 m4 rd by blast
  qed
  have all: "\<forall>i<?R. \<exists>r<?N. \<exists>c<?N. \<exists>d<?N. i = r * cellCount s + c * ?N + d"
  proof (intro allI impI)
    fix i assume "i < ?R"
    then have i3: "i < ?N * ?N * ?N" using R by simp
    have "i div (?N * ?N) < ?N" using i3 by (rule dec_lt)
    moreover have "i div ?N mod ?N < ?N" "i mod ?N < ?N" using N0 by simp_all
    moreover have "i = (i div (?N * ?N)) * cellCount s + (i div ?N mod ?N) * ?N + i mod ?N"
      unfolding cc by (rule dec_enc)
    ultimately show "\<exists>r<?N. \<exists>c<?N. \<exists>d<?N. i = r * cellCount s + c * ?N + d" by blast
  qed
  have l: "length (allNodes (s\<lparr>allNodes := h, rootHeader := Some 0\<rparr>)) = 1 + ?C + 4 * ?R"
    using len by simp
  have rows': "\<forall>r<?N. \<forall>c<?N. \<forall>d<?N.
           r * cellCount s + c * ?N + d < ?R
         \<and> M ! (r * cellCount s + c * ?N + d) ! (r * ?N + c)
         \<and> M ! (r * cellCount s + c * ?N + d) ! (cellCount s + r * ?N + d)
         \<and> M ! (r * cellCount s + c * ?N + d) ! (2 * cellCount s + c * ?N + d)
         \<and> M ! (r * cellCount s + c * ?N + d) ! (3 * cellCount s + blockIndex ?B r c * ?N + d)
         \<and> (\<forall>t<4. rowData (allNodes (s\<lparr>allNodes := h, rootHeader := Some 0\<rparr>)
                ! (1 + ?C + 4 * (r * cellCount s + c * ?N + d) + t))
              = [int d + 1, int r + 1, int c + 1])"
    using rows by simp
  show ?thesis using M b l rows' all by blast
qed

theorem torus_row_metadata_witness:
  "\<exists>M s1. buildExactCoverMatrix solver4 (replicate 64 (replicate 64 False)) = Some M
     \<and> buildDLXLinkedList solver4 M = Some s1 \<and> length (allNodes s1) = 321
     \<and> M ! 27 ! 6 \<and> M ! 27 ! 23 \<and> M ! 27 ! 43 \<and> M ! 27 ! 55
     \<and> rowData (allNodes s1 ! 173) = [4, 2, 3]"
proof -
  have g: "gridSize solver4 = 4" "exactCoverRows solver4 = 64" "exactCoverCols solver4 = 64"
    "blockSize solver4 = 2" "cellCount solver4 = 16"
    by (simp_all add: solver4_def)
  obtain M s1 where M: "buildExactCoverMatrix solver4 (replicate 64 (replicate 64 False)) = Some M"
      and b: "buildDLXLinkedList solver4 M = Some s1"
      and len: "length (allNodes s1) = 1 + 64 + 4 * 64"
      and rows: "\<forall>r<4. \<forall>c<4. \<forall>d<4.
           r * 16 + c * 4 + d < (64::nat)
         \<and> M ! (r * 16 + c * 4 + d) ! (r * 4 + c)
         \<and> M ! (r * 16 + c * 4 + d) ! (16 + r * 4 + d)
         \<and> M ! (r * 16 + c * 4 + d) ! (2 * 16 + c * 4 + d)
         \<and> M ! (r * 16 + c * 4 + d) ! (3 * 16 + blockIndex 2 r c * 4 + d)
         \<and> (\<forall>t<4. rowData (allNodes s1 ! (1 + 64 + 4 * (r * 16 + c * 4 + d) + t))
              = [int d + 1, int r + 1, int c + 1])"
    using torus_row_metadata[OF construct_4] unfolding g by auto
  have "(1::nat) < 4" "(2::nat) < 4" "(3::nat) < 4" "(0::nat) < 4" by simp_all
  then have "M ! (1 * 16 + 2 * 4 + 3) ! (1 * 4 + 2)
         \<and> M ! (1 * 16 + 2 * 4 + 3) ! (16 + 1 * 4 + 3)
         \<and> M ! (1 * 16 + 2 * 4 + 3) ! (2 * 16 + 2 * 4 + 3)
         \<and> M ! (1 * 16 + 2 * 4 + 3) ! (3 * 16 + blockIndex 2 1 2 * 4 + 3)
         \<and> rowData (allNodes s1 ! (1 + 64 + 4 * (1 * 16 + 2 * 4 + 3) + 0))
              = [int 3 + 1, int 1 + 1, int 2 + 1]"
    using rows by blast
  then show ?thesis using M b len by (simp add: blockIndex_def)
qed

section \<open>The header ring after construction\<close>

text \<open>
  Claim C5 says that \<open>node.right.left == node\<close> holds for every node of the torus outside a
  running cover or uncover. The loop that creates the column headers links each new header
  with \<^verbatim>\<open>newNode->right = header\<close>, \<^verbatim>\<open>newNode->left = temp\<close>, \<^verbatim>\<open>temp->right = newNode\<close>
  and never assigns \<^verbatim>\<open>header->left\<close>: in the torus that \<open>buildDLXLinkedList\<close> returns the
  right neighbour of the last column header is the root, and the left neighbour of the root
  is still the root itself.
\<close>

theorem last_header_right_left:
  assumes "construct sz = Some (Inr s)" "0 < sz" "sz \<le> 812"
  shows "\<exists>M s1. buildExactCoverMatrix s (replicate (exactCoverRows s) (replicate (exactCoverCols s) False)) = Some M
     \<and> buildDLXLinkedList s M = Some s1
     \<and> fld right (allNodes s1) (Some (exactCoverCols s)) = Some (rootHeader s1)
     \<and> fld left (allNodes s1) (rootHeader s1) = Some (rootHeader s1)
     \<and> rootHeader s1 \<noteq> Some (exactCoverCols s)"
proof -
  let ?C = "exactCoverCols s"
  have v: "valid_solver s" using assms(1) by (rule construct_valid)
  have N0: "0 < gridSize s" using construct_fields(3)[OF assms(1)] assms(2) by simp
  then have C0: "0 < ?C" using v by (simp add: valid_solver_def)
  obtain M h where M: "buildExactCoverMatrix s (replicate (exactCoverRows s) (replicate ?C False)) = Some M"
      and b: "buildDLXLinkedList s M = Some (s\<lparr>allNodes := h, rootHeader := Some 0\<rparr>)"
      and H: "hdrs_ok ?C h"
    using build_torus_constructed[OF assms] by blast
  have Cn: "?C < length h" and l0: "left (h ! 0) = Some 0" using H by (simp_all add: hdrs_ok_def)
  have rC: "right (h ! ?C) = Some 0" using H C0 unfolding hdrs_ok_def by simp
  have "fld right h (Some ?C) = Some (Some 0)" using Cn rC by simp
  moreover have "0 < length h" using Cn by (cases h) simp_all
  then have "fld left h (Some 0) = Some (Some 0)" using l0 by simp
  ultimately show ?thesis using M b C0 by simp
qed

theorem last_header_right_left_witness:
  "\<exists>M s1. buildExactCoverMatrix solver4 (replicate 64 (replicate 64 False)) = Some M
     \<and> buildDLXLinkedList solver4 M = Some s1
     \<and> fld right (allNodes s1) (Some 64) = Some (rootHeader s1)
     \<and> fld left (allNodes s1) (rootHeader s1) = Some (rootHeader s1)
     \<and> rootHeader s1 \<noteq> Some 64"
proof -
  have g: "exactCoverRows solver4 = 64" "exactCoverCols solver4 = 64"
    by (simp_all add: solver4_def)
  show ?thesis using last_header_right_left[OF construct_4] unfolding g by simp
qed

section \<open>The 1\<times>1 solver\<close>

lemma construct_1: "construct 1 = Some (Inr solver1)"
proof -
  have "\<lfloor>sqrt (real_of_int (1 * 1))\<rfloor> = \<bar>1\<bar>" by (rule floor_sqrt_square)
  then have "\<lfloor>sqrt (real_of_int 1)\<rfloor> = 1" by simp
  then show ?thesis by (simp add: construct_eq solver1_def)
qed

lemma matrix_1: "buildExactCoverMatrix solver1 (replicate (exactCoverRows solver1)
    (replicate (exactCoverCols solver1) False)) = Some [[True, True, True, True]]"
  by code_simp

section \<open>Cover followed by uncover\<close>

lemma assign_map:
  assumes "assign h p g = Some h1" "\<And>n. f (g n) = f n"
  shows "map f h1 = map f h"
proof -
  obtain a where a: "p = Some a" "a < length h" "h1 = h[a := g (h ! a)]"
    using assms(1) by (auto simp: assign_def split: option.splits if_splits)
  have "(map f h)[a := map f h ! a] = map f h" by (rule list_update_id)
  then show ?thesis unfolding a(3) using assms(2) a(2) by (simp add: map_update)
qed

lemma assign_lr:
  assumes "assign h p g = Some h1" "\<And>n. left (g n) = left n" "\<And>n. right (g n) = right n"
  shows "map left h1 = map left h" "map right h1 = map right h"
  using assign_map[OF assms(1), of left] assign_map[OF assms(1), of right] assms(2,3) by simp_all

lemma cover_row_lr:
  assumes a: "cover_row node temp h = Some h'"
  shows "map left h' = map left h \<and> map right h' = map right h"
proof (rule cover_row.raw_induct[where P = "\<lambda>node temp h h'. map left h' = map left h \<and> map right h' = map right h",
      OF _ a], goal_cases)
  case (1 cr node temp h h')
  show ?case
  proof (cases "temp = node")
    case True
    then show ?thesis using 1(2) by simp
  next
    case False
    then obtain d u h1 u1 d1 h2 c h3 t where s:
      "assign h d (\<lambda>n. n\<lparr>up := u\<rparr>) = Some h1"
      "assign h1 u1 (\<lambda>n. n\<lparr>down := d1\<rparr>) = Some h2"
      "assign h2 c (\<lambda>n. n\<lparr>columnSize := columnSize n - 1\<rparr>) = Some h3"
      "cr node t h3 = Some h'"
      using 1(2) by (auto simp: bind_eq_Some_conv)
    show ?thesis using 1(1)[OF s(4)] assign_lr[OF s(1)] assign_lr[OF s(2)] assign_lr[OF s(3)]
      by simp
  qed
qed

lemma cover_rows_lr:
  assumes a: "cover_rows col node h = Some h'"
  shows "map left h' = map left h \<and> map right h' = map right h"
proof (rule cover_rows.raw_induct[where P = "\<lambda>col node h h'. map left h' = map left h \<and> map right h' = map right h",
      OF _ a], goal_cases)
  case (1 cr col node h h')
  show ?case
  proof (cases "node = col")
    case True
    then show ?thesis using 1(2) by simp
  next
    case False
    then obtain t h1 n where s: "cover_row node t h = Some h1" "cr col n h1 = Some h'"
      using 1(2) by (auto simp: bind_eq_Some_conv)
    show ?thesis using 1(1)[OF s(2)] cover_row_lr[OF s(1)] by simp
  qed
qed

lemma uncover_row_lr:
  assumes a: "uncover_row node temp h = Some h'"
  shows "map left h' = map left h \<and> map right h' = map right h"
proof (rule uncover_row.raw_induct[where P = "\<lambda>node temp h h'. map left h' = map left h \<and> map right h' = map right h",
      OF _ a], goal_cases)
  case (1 cr node temp h h')
  show ?case
  proof (cases "temp = node")
    case True
    then show ?thesis using 1(2) by simp
  next
    case False
    then obtain c h1 d h2 u h3 t where s:
      "assign h c (\<lambda>n. n\<lparr>columnSize := columnSize n + 1\<rparr>) = Some h1"
      "assign h1 d (\<lambda>n. n\<lparr>up := temp\<rparr>) = Some h2"
      "assign h2 u (\<lambda>n. n\<lparr>down := temp\<rparr>) = Some h3"
      "cr node t h3 = Some h'"
      using 1(2) by (auto simp: bind_eq_Some_conv)
    show ?thesis using 1(1)[OF s(4)] assign_lr[OF s(1)] assign_lr[OF s(2)] assign_lr[OF s(3)]
      by simp
  qed
qed

lemma uncover_rows_lr:
  assumes a: "uncover_rows col node h = Some h'"
  shows "map left h' = map left h \<and> map right h' = map right h"
proof (rule uncover_rows.raw_induct[where P = "\<lambda>col node h h'. map left h' = map left h \<and> map right h' = map right h",
      OF _ a], goal_cases)
  case (1 cr col node h h')
  show ?case
  proof (cases "node = col")
    case True
    then show ?thesis using 1(2) by simp
  next
    case False
    then obtain t h1 n where s: "uncover_row node t h = Some h1" "cr col n h1 = Some h'"
      using 1(2) by (auto simp: bind_eq_Some_conv)
    show ?thesis using 1(1)[OF s(2)] uncover_row_lr[OF s(1)] by simp
  qed
qed

lemma map_eq_nth: "map f h' = map f h \<Longrightarrow> k < length h \<Longrightarrow> f (h' ! k) = f (h ! k)"
  by (metis length_map nth_map)

lemma cover_uncover_root_left:
  assumes c: "c \<noteq> 0" "c < length h" and l: "left (h ! c) = Some l" "l \<noteq> c"
    and r: "right (h ! c) = Some 0"
    and cov: "coverColumn h (Some c) = Some h1" and unc: "uncoverColumn h1 (Some c) = Some h2"
  shows "left (h2 ! 0) = Some c" "length h2 = length h"
proof -
  have z: "0 < length h" using c(2) by linarith
  obtain ha hb n where s1: "assign h (Some l) (\<lambda>n. n\<lparr>right := Some 0\<rparr>) = Some ha"
      and s2: "assign ha (right (ha ! c)) (\<lambda>n. n\<lparr>left := left (ha ! c)\<rparr>) = Some hb"
      and s3: "cover_rows (Some c) n hb = Some h1"
    using cov c l r
    by (auto simp: coverColumn_def fld_def assign_def bind_eq_Some_conv split: if_splits option.splits)
  have ll: "l < length h" and ha: "ha = h[l := (h ! l)\<lparr>right := Some 0\<rparr>]"
    using s1 by (auto simp: assign_def split: if_splits)
  have hac: "ha ! c = h ! c" using l(2) ha by simp
  have hb: "hb = ha[0 := (ha ! 0)\<lparr>left := Some l\<rparr>]"
    using s2 z by (auto simp: assign_def hac r l ha split: if_splits)
  have len: "length hb = length h" by (simp add: hb ha)
  have hbc: "left (hb ! c) = Some l" "right (hb ! c) = Some 0"
    using c by (simp_all add: hb hac l r)
  note m1 = cover_rows_lr[OF s3]
  have len1: "length h1 = length h" using m1 len by (metis length_map)
  have h1c: "left (h1 ! c) = Some l" "right (h1 ! c) = Some 0"
    using map_eq_nth[of left h1 hb c] map_eq_nth[of right h1 hb c] m1 hbc c len by simp_all
  obtain n' hc hd where u1: "uncover_rows (Some c) n' h1 = Some hc"
      and u2: "assign hc (left (hc ! c)) (\<lambda>n. n\<lparr>right := Some c\<rparr>) = Some hd"
      and u3: "assign hd (right (hd ! c)) (\<lambda>n. n\<lparr>left := Some c\<rparr>) = Some h2"
    using unc
    by (auto simp: uncoverColumn_def fld_def bind_eq_Some_conv split: if_splits option.splits)
  note m2 = uncover_rows_lr[OF u1]
  have lenc: "length hc = length h" using m2 len1 by (metis length_map)
  have hcc: "left (hc ! c) = Some l" "right (hc ! c) = Some 0"
    using map_eq_nth[of left hc h1 c] map_eq_nth[of right hc h1 c] m2 h1c c len1 by simp_all
  have hd: "hd = hc[l := (hc ! l)\<lparr>right := Some c\<rparr>]"
    using u2 by (auto simp: assign_def hcc split: if_splits)
  have hdc: "right (hd ! c) = Some 0" using l(2) by (simp add: hd hcc)
  have "h2 = hd[0 := (hd ! 0)\<lparr>left := Some c\<rparr>]"
    using u3 by (auto simp: assign_def hdc split: if_splits)
  then show "left (h2 ! 0) = Some c" "length h2 = length h" using z lenc by (simp_all add: hd)
qed

lemma cover_uncover_1:
  "(case buildDLXLinkedList solver1 [[True, True, True, True]] of None \<Rightarrow> False
    | Some s1 \<Rightarrow> rootHeader s1 = Some 0 \<and>
       (case coverColumn (allNodes s1) (Some 4) of None \<Rightarrow> False
        | Some h1 \<Rightarrow> (case uncoverColumn h1 (Some 4) of None \<Rightarrow> False | Some h2 \<Rightarrow> True)))"
  by code_simp

text \<open>
  Claim C4 says that \<open>coverColumn c\<close> followed by \<open>uncoverColumn c\<close> restores every link.
  \<open>uncoverColumn\<close> ends with \<^verbatim>\<open>col->right->left = col\<close>. In the torus that
  \<open>buildDLXLinkedList\<close> returns the root's \<open>left\<close> is the root itself, because the loop that
  creates the headers never assigns it; the right neighbour of the last column header is the
  root. So whenever the last column of a freshly built torus is covered and uncovered, the
  root's \<open>left\<close> is the root before and the last column header afterwards.
\<close>

theorem cover_uncover_last_column:
  assumes "construct sz = Some (Inr s)" "0 < sz" "sz \<le> 812"
    and "buildExactCoverMatrix s (replicate (exactCoverRows s) (replicate (exactCoverCols s) False)) = Some M"
    and "buildDLXLinkedList s M = Some s1"
    and "coverColumn (allNodes s1) (Some (exactCoverCols s)) = Some h1"
    and "uncoverColumn h1 (Some (exactCoverCols s)) = Some h2"
  shows "fld left (allNodes s1) (rootHeader s1) = Some (rootHeader s1)
     \<and> fld left h2 (rootHeader s1) = Some (Some (exactCoverCols s))
     \<and> rootHeader s1 \<noteq> Some (exactCoverCols s) \<and> h2 \<noteq> allNodes s1"
proof -
  let ?C = "exactCoverCols s"
  have v: "valid_solver s" using assms(1) by (rule construct_valid)
  have N0: "0 < gridSize s" using construct_fields(3)[OF assms(1)] assms(2) by simp
  then have C0: "0 < ?C" using v by (simp add: valid_solver_def)
  obtain M' h where M: "buildExactCoverMatrix s (replicate (exactCoverRows s) (replicate ?C False)) = Some M'"
      and b: "buildDLXLinkedList s M' = Some (s\<lparr>allNodes := h, rootHeader := Some 0\<rparr>)"
      and H: "hdrs_ok ?C h"
    using build_torus_constructed[OF assms(1,2,3)] by blast
  have s1: "s1 = s\<lparr>allNodes := h, rootHeader := Some 0\<rparr>" using M b assms(4,5) by simp
  have Cn: "?C < length h" and l0: "left (h ! 0) = Some 0" using H by (simp_all add: hdrs_ok_def)
  have rC: "right (h ! ?C) = Some 0" and lC: "left (h ! ?C) = Some (?C - 1)"
    using H C0 unfolding hdrs_ok_def by simp_all
  have ne: "?C - 1 \<noteq> ?C" "?C \<noteq> 0" using C0 by simp_all
  have cov: "coverColumn h (Some ?C) = Some h1" using assms(6) by (simp add: s1)
  have l2: "left (h2 ! 0) = Some ?C" "length h2 = length h"
    using cover_uncover_root_left[OF ne(2) Cn lC ne(1) rC cov assms(7)] .
  have z: "0 < length h" using Cn by linarith
  have "h2 \<noteq> h" using l2 l0 ne by auto
  then show ?thesis using l0 l2 z C0 by (simp add: s1)
qed

theorem cover_uncover_last_column_witness:
  "\<exists>s1 h1 h2. buildDLXLinkedList solver1 [[True, True, True, True]] = Some s1
     \<and> coverColumn (allNodes s1) (Some 4) = Some h1 \<and> uncoverColumn h1 (Some 4) = Some h2
     \<and> fld left (allNodes s1) (rootHeader s1) = Some (rootHeader s1)
     \<and> fld left h2 (rootHeader s1) = Some (Some 4) \<and> h2 \<noteq> allNodes s1"
proof -
  obtain s1 h1 h2 where e: "buildDLXLinkedList solver1 [[True, True, True, True]] = Some s1"
      "coverColumn (allNodes s1) (Some 4) = Some h1" "uncoverColumn h1 (Some 4) = Some h2"
    using cover_uncover_1 by (auto split: option.splits)
  have g: "exactCoverCols solver1 = 4" "exactCoverRows solver1 = 1" by (simp_all add: solver1_def)
  have m: "buildExactCoverMatrix solver1 (replicate (exactCoverRows solver1)
      (replicate (exactCoverCols solver1) False)) = Some [[True, True, True, True]]"
    by (rule matrix_1)
  have "fld left (allNodes s1) (rootHeader s1) = Some (rootHeader s1)
     \<and> fld left h2 (rootHeader s1) = Some (Some (exactCoverCols solver1))
     \<and> rootHeader s1 \<noteq> Some (exactCoverCols solver1) \<and> h2 \<noteq> allNodes s1"
    using e(2,3) unfolding g[symmetric]
    by (intro cover_uncover_last_column[OF construct_1 _ _ m e(1)]) (simp_all add: g)
  then show ?thesis using e by (auto simp: g)
qed

section \<open>Recording a solution\<close>

lemma mapNodes_overrun:
  assumes "\<forall>k. i \<le> k \<and> k < length nodes \<longrightarrow> nodes ! k \<noteq> None"
  shows "mapNodes h nodes i sudoku = None"
  using assms
proof (induction "length nodes - i" arbitrary: i sudoku)
  case 0
  then have "\<not> i < length nodes" by simp
  then show ?case by (simp add: mapNodes.simps[of h nodes i])
next
  case (Suc m)
  then have lt: "i < length nodes" by simp
  then have n: "nodes ! i \<noteq> None" using Suc.prems by simp
  have m: "m = length nodes - (i + 1)" using Suc.hyps(2) by simp
  have ih: "\<And>g. mapNodes h nodes (i + 1) g = None"
    using Suc.prems by (intro Suc.hyps(1)[OF m]) simp
  show ?case using lt n ih
    by (subst mapNodes.simps) (simp split: option.splits)
qed

lemma overrun_1:
  "(case buildDLXLinkedList solver1 [[True, True, True, True]] of None \<Rightarrow> False
    | Some s1 \<Rightarrow>
       (case applyInitialConstraints s1 [[1]] of None \<Rightarrow> False
        | Some s2 \<Rightarrow> fixedClues s2 = [Some 5] \<and> solution s2 = [None] \<and> rootHeader s2 = Some 0
            \<and> fld right (allNodes s2) (Some 0) = Some (Some 0)))"
  by code_simp

lemma solve_solved_1: "solve solver1 [[1]] 1 = None"
  by code_simp

text \<open>
  Claim C9 says that \<open>solve G 1\<close> returns exactly \<open>G\<close> for every fully solved valid grid
  \<open>G\<close>. Every cell of \<open>G\<close> is a clue, so \<open>applyInitialConstraints\<close> fills all \<open>cellCount\<close>
  entries of \<open>fixedClues\<close>; the search then finds the header ring empty and calls
  \<open>mapSolutionToGrid\<close>, whose loop \<^verbatim>\<open>for (int i = 0; fixedClues[i] != nullptr; ++i)\<close> has
  no bound on \<open>i\<close>: when every entry of \<open>fixedClues\<close> is set it reads
  \<^verbatim>\<open>fixedClues[cellCount]\<close>, one past the end of the vector, and the behaviour is undefined.
\<close>

theorem mapSolutionToGrid_overrun:
  assumes "\<forall>p\<in>set (fixedClues s). p \<noteq> None"
  shows "mapSolutionToGrid s sudoku = None"
proof -
  have "\<forall>k. 0 \<le> k \<and> k < length (fixedClues s) \<longrightarrow> fixedClues s ! k \<noteq> None"
    using assms by simp
  then have "\<And>g. mapNodes (allNodes s) (fixedClues s) 0 g = None" by (rule mapNodes_overrun)
  then show ?thesis by (simp add: mapSolutionToGrid_def split: bind_splits)
qed

theorem mapSolutionToGrid_overrun_witness:
  "\<exists>s1 s2. construct 1 = Some (Inr solver1)
     \<and> buildDLXLinkedList solver1 [[True, True, True, True]] = Some s1
     \<and> applyInitialConstraints s1 [[1]] = Some s2 \<and> fixedClues s2 = [Some 5]
     \<and> mapSolutionToGrid s2 [[0]] = None \<and> solve solver1 [[1]] 1 = None"
proof -
  obtain s1 s2 where e: "buildDLXLinkedList solver1 [[True, True, True, True]] = Some s1"
      "applyInitialConstraints s1 [[1]] = Some s2" "fixedClues s2 = [Some 5]"
    using overrun_1 by (auto split: option.splits)
  have "mapSolutionToGrid s2 [[0]] = None"
    using mapSolutionToGrid_overrun[of s2 "[[0]]"] e(3) by simp
  then show ?thesis using e construct_1 solve_solved_1 by blast
qed

section \<open>The search limit\<close>


lemma leaf_1:
  "(case buildDLXLinkedList solver1 [[True, True, True, True]] of None \<Rightarrow> False
    | Some s1 \<Rightarrow> rootHeader s1 = Some 0 \<and> solutionCount s1 = 0 \<and>
       applyInitialConstraints s1 [[0]] = Some s1 \<and>
       (case coverColumn (allNodes s1) (Some 1) of None \<Rightarrow> False
        | Some h \<Rightarrow>
          (case cover_others (Some 5) (Some 6) h of None \<Rightarrow> False
           | Some hc \<Rightarrow> fld right hc (Some 0) = Some (Some 0))))"
  by code_simp

lemma solve_empty_1: "solve solver1 [[0]] 1 = None"
  by code_simp

text \<open>
  Claim C8 says that \<open>solve\<close> returns between 0 and \<open>searchLimit\<close> grids for every valid
  puzzle and every positive limit. When the search reaches an empty header ring below the
  limit it records the solution with \<open>mapSolutionToGrid\<close>, whose first loop
  \<^verbatim>\<open>for (int i = 0; solution[i] != nullptr; ++i)\<close> has no bound on \<open>i\<close>. For a puzzle
  without clues all \<open>cellCount\<close> entries of \<open>solution\<close> are in use at that moment, the loop
  reads \<^verbatim>\<open>solution[cellCount]\<close> past the end of the vector, and the behaviour is undefined:
  no sequence of grids is returned.
\<close>

theorem searchDLX_record_overrun:
  assumes "solutionCount (fst st) < searchLimit"
    and "fld right (allNodes (fst st)) (rootHeader (fst st)) = Some (rootHeader (fst st))"
    and "\<forall>p\<in>set (solution (fst st)). p \<noteq> None"
  shows "searchDLX Entry k searchLimit st = None"
proof -
  have "\<forall>k. 0 \<le> k \<and> k < length (solution (fst st)) \<longrightarrow> solution (fst st) ! k \<noteq> None"
    using assms(3) by simp
  then have "\<And>g. mapNodes (allNodes (fst st)) (solution (fst st)) 0 g = None"
    by (rule mapNodes_overrun)
  then have "\<And>g. mapSolutionToGrid (fst st) g = None" by (simp add: mapSolutionToGrid_def)
  then show ?thesis using assms(1,2) by (subst searchDLX.simps) simp
qed

theorem searchDLX_record_overrun_witness:
  "\<exists>s1 h hc. construct 1 = Some (Inr solver1)
     \<and> buildDLXLinkedList solver1 [[True, True, True, True]] = Some s1
     \<and> applyInitialConstraints s1 [[0]] = Some s1
     \<and> coverColumn (allNodes s1) (Some 1) = Some h \<and> cover_others (Some 5) (Some 6) h = Some hc
     \<and> searchDLX Entry 1 1 (s1\<lparr>solution := [Some 5], allNodes := hc\<rparr>, []) = None
     \<and> solve solver1 [[0]] 1 = None"
proof -
  obtain s1 h hc where e: "buildDLXLinkedList solver1 [[True, True, True, True]] = Some s1"
      "rootHeader s1 = Some 0" "solutionCount s1 = 0" "applyInitialConstraints s1 [[0]] = Some s1"
      "coverColumn (allNodes s1) (Some 1) = Some h" "cover_others (Some 5) (Some 6) h = Some hc"
      "fld right hc (Some 0) = Some (Some 0)"
    using leaf_1 by (auto split: option.splits)
  have "searchDLX Entry 1 1 (s1\<lparr>solution := [Some 5], allNodes := hc\<rparr>, []) = None"
    using e(2,3,7) by (intro searchDLX_record_overrun) simp_all
  then show ?thesis using e construct_1 solve_empty_1 by blast
qed

section \<open>Non-positive search limits\<close>










end
